theory Spec2Isabelle
  imports Main "HOL-Library.Sublist"
begin

section \<open>JavaScript values, the heap and the iteration protocol\<close>

text \<open>
  The library wraps anything that follows the JavaScript iteration protocol. The values
  the code can receive are modelled by one datatype. An array is a multi-pass source; a
  generator object is a single-pass source whose position lives in the heap; a generator
  function is a function object with an identity (the constructor of \<open>Iterable\<close> assigns
  a property of it) and a body. Two kinds of generator function occur: one written by the
  caller, abstracted as the finite list of values one run of it yields, and the closure
  \<open>function* () { ... }\<close> that \<open>defaultIfEmpty.js\<close> builds, which captures \<open>iterable\<close>
  and \<open>value\<close>. An instance of the class \<open>Iterable\<close> has the single field \<open>it\<close>.
  Numbers are integers here: the only arithmetic of the code is a counter that starts at 0
  and is incremented by 1. Every producer of the model is finite: a generator object is
  abstracted as the values it has still to yield, and so every traversal ends.
\<close>

datatype val =
    Undefined
  | Null
  | Num int
  | Bool bool
  | Str string
  | Arr "val list"
  | PlainObj
  | Member string
  | Symbol string
  | GenObj nat
  | GenFn nat "val list"
  | DefaultIfEmptyFn nat val val
  | IterableObj val

text \<open>
  The two errors of the library and of the runtime: \<open>new BadArgumentError(argumentNo,
  methodName, expectedType)\<close> and the \<open>TypeError\<close> JavaScript itself raises (a property
  read on \<open>undefined\<close> or \<open>null\<close>, a \<open>for ... of\<close> over a value that is not iterable).
\<close>

datatype error = BadArgumentError nat string string | TypeError

text \<open>
  The heap holds what the code and a traversal can mutate: for every generator object the
  values it has still to yield (\<open>[]\<close> once it has completed), for every generator function
  whether its \<open>Symbol.iterator\<close> property has been assigned (the constructor's
  \<open>it[ITERATOR] = it\<close>), and the identity the next function object gets.
\<close>

record heap =
  gens :: "nat \<Rightarrow> val list"
  marks :: "nat \<Rightarrow> bool"
  fresh :: nat

text \<open>
  An iterator is owned by the loop that drives it, so its state is passed explicitly.
  \<open>GenIter a\<close> is the shared generator object at address \<open>a\<close> (its own iterator);
  \<open>Run ys\<close> is the generator object a call of a caller-written generator function made;
  the three \<open>DIE\<close> states are the suspension points of the generator of
  \<open>defaultIfEmpty.js\<close>: not yet started, suspended at \<open>yield i\<close> inside the loop (with the
  loop's iterator and the current \<open>flag\<close>), suspended at \<open>yield value\<close>.
\<close>

datatype iter =
    ArrayIterator "val list" nat
  | GenIter nat
  | Run "val list"
  | DIE_Start val val
  | DIE_Loop iter bool val
  | DIE_Value
  | Finished

datatype step = Yield val | Done | Throw error

text \<open>
  \<open>v[Symbol.iterator]()\<close>. A string iterates over its characters, an array from index 0,
  a generator object is its own iterator, a generator function is iterable only once the
  constructor has assigned \<open>it[ITERATOR] = it\<close> (calling it then starts a new run of its
  body), and an \<open>Iterable\<close> delegates: \<open>[ITERATOR]() { return this.it[ITERATOR](); }\<close>.
\<close>

fun GetIterator :: "heap \<Rightarrow> val \<Rightarrow> error + iter" where
  "GetIterator h (Arr xs) = Inr (ArrayIterator xs 0)"
| "GetIterator h (Str s) = Inr (ArrayIterator (map (\<lambda>c. Str [c]) s) 0)"
| "GetIterator h (GenObj a) = Inr (GenIter a)"
| "GetIterator h (GenFn f ys) = (if marks h f then Inr (Run ys) else Inl TypeError)"
| "GetIterator h (DefaultIfEmptyFn f iterable v) =
     (if marks h f then Inr (DIE_Start iterable v) else Inl TypeError)"
| "GetIterator h (IterableObj w) = GetIterator h w"
| "GetIterator h Undefined = Inl TypeError"
| "GetIterator h Null = Inl TypeError"
| "GetIterator h (Num n) = Inl TypeError"
| "GetIterator h (Bool b) = Inl TypeError"
| "GetIterator h PlainObj = Inl TypeError"
| "GetIterator h (Member m) = Inl TypeError"
| "GetIterator h (Symbol d) = Inl TypeError"

text \<open>
  The body of the generator of \<open>defaultIfEmpty.js\<close> from the head of its loop, given what
  the loop's iterator answered:
  \<^verbatim>\<open>
    let flag = true;
    for (const i of iterable) { yield i; flag = false; }
    if (flag) { yield value; }
  \<close>
\<close>

definition DIE_loop_head :: "(step \<times> iter) \<times> heap \<Rightarrow> bool \<Rightarrow> val \<Rightarrow> (step \<times> iter) \<times> heap" where
  "DIE_loop_head r flag v =
     (case r of
        ((Yield i, J), h) \<Rightarrow> ((Yield i, DIE_Loop J flag v), h)
      | ((Done, J), h) \<Rightarrow> (if flag then ((Yield v, DIE_Value), h) else ((Done, Finished), h))
      | ((Throw e, J), h) \<Rightarrow> ((Throw e, Finished), h))"

text \<open>Nesting depth of closures, used only to show that \<open>IteratorNext\<close> terminates.\<close>

fun src_depth :: "val \<Rightarrow> nat" where
  "src_depth (DefaultIfEmptyFn f iterable v) = Suc (src_depth iterable)"
| "src_depth (IterableObj w) = src_depth w"
| "src_depth _ = 0"

fun iter_depth :: "iter \<Rightarrow> nat" where
  "iter_depth (DIE_Start iterable v) = Suc (src_depth iterable)"
| "iter_depth (DIE_Loop J flag v) = Suc (iter_depth J)"
| "iter_depth _ = 0"

lemma GetIterator_depth: "GetIterator h v = Inr J \<Longrightarrow> iter_depth J \<le> src_depth v"
  by (induction h v rule: GetIterator.induct) (auto split: if_splits)

text \<open>
  \<open>iterator.next()\<close>: the answer, the iterator's new state and the new heap. A generator
  object of the heap yields the head of what it has left. The generator of
  \<open>defaultIfEmpty.js\<close> starts by setting \<open>flag\<close> and opening the loop's iterator; resuming
  it after \<open>yield i\<close> executes \<open>flag = false\<close> and returns to the head of the loop.
\<close>

function IteratorNext :: "heap \<Rightarrow> iter \<Rightarrow> (step \<times> iter) \<times> heap" where
  "IteratorNext h (ArrayIterator xs k) =
     (if k < length xs then ((Yield (xs ! k), ArrayIterator xs (Suc k)), h)
      else ((Done, ArrayIterator xs k), h))"
| "IteratorNext h (GenIter a) =
     (case gens h a of
        [] \<Rightarrow> ((Done, GenIter a), h)
      | x # xs \<Rightarrow> ((Yield x, GenIter a), h\<lparr>gens := (gens h)(a := xs)\<rparr>))"
| "IteratorNext h (Run ys) =
     (case ys of [] \<Rightarrow> ((Done, Finished), h) | x # xs \<Rightarrow> ((Yield x, Run xs), h))"
| "IteratorNext h (DIE_Start iterable v) =
     (case GetIterator h iterable of
        Inl e \<Rightarrow> ((Throw e, Finished), h)
      | Inr J \<Rightarrow> DIE_loop_head (IteratorNext h J) True v)"
| "IteratorNext h (DIE_Loop J flag v) = DIE_loop_head (IteratorNext h J) False v"
| "IteratorNext h DIE_Value = ((Done, Finished), h)"
| "IteratorNext h Finished = ((Done, Finished), h)"
  by pat_completeness auto
termination
  by (relation "measure (\<lambda>(h, J). iter_depth J)") (auto dest: GetIterator_depth)

text \<open>
  \<open>iterator.return()\<close>, which a \<open>for ... of\<close> calls when it is left before the iterator is
  done. An array iterator has no such method. A generator object completes. A generator
  of \<open>defaultIfEmpty.js\<close> suspended inside its loop leaves that loop, which closes the
  loop's iterator in turn.
\<close>

fun IteratorClose :: "heap \<Rightarrow> iter \<Rightarrow> heap" where
  "IteratorClose h (ArrayIterator xs k) = h"
| "IteratorClose h (GenIter a) = h\<lparr>gens := (gens h)(a := [])\<rparr>"
| "IteratorClose h (Run ys) = h"
| "IteratorClose h (DIE_Start iterable v) = h"
| "IteratorClose h (DIE_Loop J flag v) = IteratorClose h J"
| "IteratorClose h DIE_Value = h"
| "IteratorClose h Finished = h"

text \<open>
  What a source, or an iterator in mid-flight, has still to yield in a given heap. These
  two functions are the reference against which the step-by-step protocol is verified;
  the length of \<open>pending\<close> also bounds every \<open>for ... of\<close> loop below.
\<close>

fun elements :: "heap \<Rightarrow> val \<Rightarrow> val list" where
  "elements h (Arr xs) = xs"
| "elements h (Str s) = map (\<lambda>c. Str [c]) s"
| "elements h (GenObj a) = gens h a"
| "elements h (GenFn f ys) = ys"
| "elements h (DefaultIfEmptyFn f iterable v) =
     (case elements h iterable of [] \<Rightarrow> [v] | x # xs \<Rightarrow> x # xs)"
| "elements h (IterableObj w) = elements h w"
| "elements h _ = []"

fun pending :: "heap \<Rightarrow> iter \<Rightarrow> val list" where
  "pending h (ArrayIterator xs k) = drop k xs"
| "pending h (GenIter a) = gens h a"
| "pending h (Run ys) = ys"
| "pending h (DIE_Start iterable v) =
     (case elements h iterable of [] \<Rightarrow> [v] | x # xs \<Rightarrow> x # xs)"
| "pending h (DIE_Loop J flag v) = pending h J"
| "pending h DIE_Value = []"
| "pending h Finished = []"

lemma GetIterator_pending: "GetIterator h v = Inr J \<Longrightarrow> pending h J = elements h v"
  by (induction h v rule: GetIterator.induct) (auto split: if_splits)

lemma IteratorNext_pending:
  "IteratorNext h J = ((r, J'), h') \<Longrightarrow>
     (\<forall>x. r = Yield x \<longrightarrow> pending h J = x # pending h' J') \<and>
     (r = Done \<longrightarrow> pending h J = [] \<and> pending h' J' = [])"
proof (induction h J arbitrary: r J' h' rule: IteratorNext.induct)
  case (1 h xs k)
  then show ?case by (auto split: if_splits simp: Cons_nth_drop_Suc)
next
  case (2 h a)
  then show ?case by (auto split: list.splits)
next
  case (3 h ys)
  then show ?case by (auto split: list.splits)
next
  case (4 h iterable v)
  show ?case
  proof (cases "GetIterator h iterable")
    case (Inl e)
    with 4(2) show ?thesis by auto
  next
    case (Inr J0)
    obtain r0 J0' h0 where n0: "IteratorNext h J0 = ((r0, J0'), h0)"
      by (metis prod.exhaust)
    from 4(1)[OF Inr n0] GetIterator_pending[OF Inr]
    have ih: "(\<forall>x. r0 = Yield x \<longrightarrow> elements h iterable = x # pending h0 J0')"
      "r0 = Done \<longrightarrow> elements h iterable = [] \<and> pending h0 J0' = []"
      by auto
    from 4(2) Inr n0 ih show ?thesis
      by (cases r0) (auto simp: DIE_loop_head_def)
  qed
next
  case (5 h J flag v)
  obtain r0 J0' h0 where n0: "IteratorNext h J = ((r0, J0'), h0)"
    by (metis prod.exhaust)
  from 5(1)[OF n0] 5(2) n0 show ?case
    by (cases r0) (auto simp: DIE_loop_head_def)
next
  case (6 h)
  then show ?case by auto
next
  case (7 h)
  then show ?case by auto
qed

lemma IteratorNext_Yield_shorter:
  "IteratorNext h J = ((Yield x, J'), h') \<Longrightarrow> length (pending h' J') < length (pending h J)"
  using IteratorNext_pending[of h J "Yield x" J' h'] by simp

section \<open>The class \<open>Iterable\<close>\<close>

text \<open>
  \<open>const { it } = this\<close>: the field of an instance (any other receiver has no such field).
\<close>

fun it_of :: "val \<Rightarrow> val" where
  "it_of (IterableObj w) = w"
| "it_of _ = Undefined"

text \<open>
  The loop of \<open>get(index)\<close>; \<open>s\<close> is the counter, \<open>s === index\<close> holds exactly when
  \<open>index\<close> is the number \<open>s\<close>, and \<open>return i\<close> leaves the loop early, which closes the
  iterator:
  \<^verbatim>\<open>
    let s = 0;
    for (const i of it) { if (s === index) { return i; } s += 1; }
    return undefined;
  \<close>
\<close>

function get_loop :: "heap \<Rightarrow> iter \<Rightarrow> nat \<Rightarrow> val \<Rightarrow> (error + val) \<times> heap" where
  "get_loop h J s index =
     (case IteratorNext h J of
        ((Yield i, J'), h') \<Rightarrow>
          if Num (int s) = index then (Inr i, IteratorClose h' J')
          else get_loop h' J' (Suc s) index
      | ((Done, J'), h') \<Rightarrow> (Inr Undefined, h')
      | ((Throw e, J'), h') \<Rightarrow> (Inl e, h'))"
  by pat_completeness auto
termination
  by (relation "measure (\<lambda>(h, J, s, index). length (pending h J))")
     (auto intro: IteratorNext_Yield_shorter[OF sym])

declare get_loop.simps [simp del]

text \<open>
  \<open>Iterable.prototype.get\<close>. A method is modelled as a function of the receiver that
  returns its result, the receiver after the call and the heap after the call; \<open>get\<close>
  assigns no field, so the receiver comes back as it went in.
\<close>

definition get :: "val \<Rightarrow> val \<Rightarrow> heap \<Rightarrow> (error + val) \<times> val \<times> heap" where
  "get this index h =
     (let it = it_of this in
      case GetIterator h it of
        Inl e \<Rightarrow> (Inl e, this, h)
      | Inr J \<Rightarrow> (case get_loop h J 0 index of (r, h') \<Rightarrow> (r, this, h')))"

text \<open>
  Modelled from the spec: the capability check \<open>isIterable\<close> of \<open>internal/utils\<close>, which
  is not among the sources. The spec (4.1): true iff the value exposes the iteration
  capability, a callable that returns an object exposing "produce next, or signal
  completion"; no side effects. Strings, arrays, generator objects and instances of
  \<open>Iterable\<close> expose it; a generator function does once \<open>it[ITERATOR] = it\<close> has run.
\<close>

fun isIterable :: "heap \<Rightarrow> val \<Rightarrow> bool" where
  "isIterable h (Arr xs) = True"
| "isIterable h (Str s) = True"
| "isIterable h (GenObj a) = True"
| "isIterable h (GenFn f ys) = marks h f"
| "isIterable h (DefaultIfEmptyFn f iterable v) = marks h f"
| "isIterable h (IterableObj w) = True"
| "isIterable h _ = False"

text \<open>
  \<open>it.constructor.name\<close>. The read of \<open>.constructor\<close> on \<open>undefined\<close> or \<open>null\<close> raises a
  \<open>TypeError\<close> (\<open>None\<close> here). The \<open>constructor\<close> a generator object inherits is the
  prototype object of generator functions, whose inherited \<open>name\<close> is the empty string.
\<close>

fun constructor_name :: "val \<Rightarrow> string option" where
  "constructor_name Undefined = None"
| "constructor_name Null = None"
| "constructor_name (Num n) = Some ''Number''"
| "constructor_name (Bool b) = Some ''Boolean''"
| "constructor_name (Str s) = Some ''String''"
| "constructor_name (Arr xs) = Some ''Array''"
| "constructor_name PlainObj = Some ''Object''"
| "constructor_name (Member m) = Some ''Function''"
| "constructor_name (Symbol d) = Some ''Symbol''"
| "constructor_name (GenObj a) = Some []"
| "constructor_name (GenFn f ys) = Some ''GeneratorFunction''"
| "constructor_name (DefaultIfEmptyFn f iterable v) = Some ''GeneratorFunction''"
| "constructor_name (IterableObj w) = Some ''Iterable''"

text \<open>The assignment \<open>it[ITERATOR] = it\<close> on a generator function.\<close>

fun set_ITERATOR :: "val \<Rightarrow> heap \<Rightarrow> heap" where
  "set_ITERATOR (GenFn f ys) h = h\<lparr>marks := (marks h)(f := True)\<rparr>"
| "set_ITERATOR (DefaultIfEmptyFn f iterable v) h = h\<lparr>marks := (marks h)(f := True)\<rparr>"
| "set_ITERATOR _ h = h"

text \<open>
  The constructor:
  \<^verbatim>\<open>
    const it = iterable;
    if (it.constructor.name === 'GeneratorFunction') { it[ITERATOR] = it; this.it = it; }
    else if (isIterable(it)) { this.it = it; }
    else { throw new BadArgumentError(1, 'Iterable.<constructor>', 'Iterable or Generator'); }
    this.it = it;
    return new Proxy(this, { get(target, index) { ... } });
  \<close>
  The proxy it returns stands for the instance; its \<open>get\<close> trap is \<open>Proxy_get\<close> below.
\<close>

definition Iterable_constructor :: "val \<Rightarrow> heap \<Rightarrow> (error + val) \<times> heap" where
  "Iterable_constructor iterable h =
     (let it = iterable in
      case constructor_name it of
        None \<Rightarrow> (Inl TypeError, h)
      | Some n \<Rightarrow>
          if n = ''GeneratorFunction'' then (Inr (IterableObj it), set_ITERATOR it h)
          else if isIterable h it then (Inr (IterableObj it), h)
          else (Inl (BadArgumentError 1 ''Iterable.<constructor>'' ''Iterable or Generator''), h))"

text \<open>\<open>[ITERATOR]() { return this.it[ITERATOR](); }\<close>, as a method of the receiver.\<close>

definition Iterable_ITERATOR :: "val \<Rightarrow> heap \<Rightarrow> (error + iter) \<times> val \<times> heap" where
  "Iterable_ITERATOR this h = (GetIterator h (it_of this), this, h)"

section \<open>Complete traversals\<close>

text \<open>
  A complete traversal, as the tests of the repository run it: \<open>for (const i of iterable)
  { ... }\<close> to the end, recording every value the loop body sees.
\<close>

function for_of :: "heap \<Rightarrow> iter \<Rightarrow> (error + val list) \<times> heap" where
  "for_of h J =
     (case IteratorNext h J of
        ((Yield i, J'), h') \<Rightarrow>
          (case for_of h' J' of
             (Inl e, h'') \<Rightarrow> (Inl e, h'')
           | (Inr xs, h'') \<Rightarrow> (Inr (i # xs), h''))
      | ((Done, J'), h') \<Rightarrow> (Inr [], h')
      | ((Throw e, J'), h') \<Rightarrow> (Inl e, h'))"
  by pat_completeness auto
termination
  by (relation "measure (\<lambda>(h, J). length (pending h J))")
     (auto intro: IteratorNext_Yield_shorter[OF sym])

declare for_of.simps [simp del]

definition traverse :: "val \<Rightarrow> heap \<Rightarrow> (error + val list) \<times> heap" where
  "traverse src h =
     (case GetIterator h src of Inl e \<Rightarrow> (Inl e, h) | Inr J \<Rightarrow> for_of h J)"

text \<open>
  A complete traversal of an instance: the loop obtains the iterator from the method
  \<open>[ITERATOR]\<close> of the receiver and drives it to the end.
\<close>

definition traverse_Iterable :: "val \<Rightarrow> heap \<Rightarrow> (error + val list) \<times> val \<times> heap" where
  "traverse_Iterable this h =
     (case Iterable_ITERATOR this h of
        (Inl e, this', h') \<Rightarrow> (Inl e, this', h')
      | (Inr J, this', h') \<Rightarrow> (case for_of h' J of (r, h'') \<Rightarrow> (r, this', h'')))"

section \<open>The operator \<open>defaultIfEmpty\<close>\<close>

text \<open>
  The module \<open>internal/utils\<close> is not among the sources. What the code uses of it and the
  spec does not fix is a parameter of the model: the function \<open>defineField\<close> that builds
  an operator's name for error messages, the predicate \<open>isNumber\<close>, and the text
  \<open>IterableCheck\<close> puts into its error as the expected type.
\<close>

record utils =
  defineField :: "string \<Rightarrow> string"
  isNumber :: "val \<Rightarrow> bool"
  expectedIterable :: string

text \<open>
  Modelled from the spec: \<open>IterableCheck\<close> of \<open>internal/utils\<close>, which is not among the
  sources. The spec (4.1, 7): the capability check is a precondition gate; failing it
  raises a structured bad-argument error identifying the argument position and the
  operator name. \<open>None\<close> is the check passing.
\<close>

definition IterableCheck :: "utils \<Rightarrow> heap \<Rightarrow> val \<Rightarrow> nat \<Rightarrow> string \<Rightarrow> error option" where
  "IterableCheck U h iterable argumentNo field =
     (if isIterable h iterable then None
      else Some (BadArgumentError argumentNo field (expectedIterable U)))"

text \<open>\<open>const FIELD = defineField('defaultIfEmpty');\<close>\<close>

definition FIELD_defaultIfEmpty :: "utils \<Rightarrow> string" where
  "FIELD_defaultIfEmpty U = defineField U ''defaultIfEmpty''"

text \<open>
  \<^verbatim>\<open>
  export default (iterable, value) => {
    IterableCheck(iterable, 1, FIELD);
    return new Iterable(function* () { ... });
  };
  \<close>
  The function expression makes a new function object, which the constructor then marks.
\<close>

definition defaultIfEmpty :: "utils \<Rightarrow> val \<Rightarrow> val \<Rightarrow> heap \<Rightarrow> (error + val) \<times> heap" where
  "defaultIfEmpty U iterable v h =
     (case IterableCheck U h iterable 1 (FIELD_defaultIfEmpty U) of
        Some e \<Rightarrow> (Inl e, h)
      | None \<Rightarrow>
          (let f = fresh h in
           Iterable_constructor (DefaultIfEmptyFn f iterable v) (h\<lparr>fresh := Suc f\<rparr>)))"

text \<open>
  One instance of the missing module, for the closed examples below: the operator name
  is prefixed as the constructor's own \<open>'Iterable.<constructor>'\<close> is, and a number is
  what \<open>typeof\<close> calls one. No theorem with a free \<open>U\<close> depends on it.
\<close>

definition example_utils :: utils where
  "example_utils =
     \<lparr>defineField = (\<lambda>x. ''Iterable.'' @ x),
      isNumber = (\<lambda>v. case v of Num n \<Rightarrow> True | _ \<Rightarrow> False),
      expectedIterable = ''Iterable''\<rparr>"

section \<open>The two call shapes of an operator\<close>

text \<open>
  Every operator of the class comes as a static function that takes the source and as a
  method that reads the source from \<open>this.it\<close>:
  \<^verbatim>\<open>
    static defaultIfEmpty(it, value) { return defaultIfEmpty(it, value); }
    defaultIfEmpty(value) { return defaultIfEmpty(this.it, value); }
    static map(it, fn) { return map(it, fn); }
    map(fn) { return map(this.it, fn); }
    static zip(its, fn) { return zip(its, fn); }
    zip(its, fn) { return zip([this.it, ...its], fn); }
  \<close>
  \<open>internal/map\<close> and \<open>internal/zip\<close> are not among the sources: the operator a wrapper
  delegates to is a parameter (\<open>mapOp\<close>, \<open>zipOp\<close>). The method \<open>zip\<close> receives the
  elements of the array \<open>its\<close>.
\<close>

definition Iterable_defaultIfEmpty ::
  "utils \<Rightarrow> val \<Rightarrow> val \<Rightarrow> heap \<Rightarrow> (error + val) \<times> heap" where
  "Iterable_defaultIfEmpty U it v h = defaultIfEmpty U it v h"

definition proto_defaultIfEmpty ::
  "utils \<Rightarrow> val \<Rightarrow> val \<Rightarrow> heap \<Rightarrow> (error + val) \<times> heap" where
  "proto_defaultIfEmpty U this v h = defaultIfEmpty U (it_of this) v h"

definition Iterable_map ::
  "(val \<Rightarrow> 'f \<Rightarrow> heap \<Rightarrow> (error + val) \<times> heap) \<Rightarrow> val \<Rightarrow> 'f \<Rightarrow> heap \<Rightarrow> (error + val) \<times> heap" where
  "Iterable_map mapOp it fn h = mapOp it fn h"

definition proto_map ::
  "(val \<Rightarrow> 'f \<Rightarrow> heap \<Rightarrow> (error + val) \<times> heap) \<Rightarrow> val \<Rightarrow> 'f \<Rightarrow> heap \<Rightarrow> (error + val) \<times> heap" where
  "proto_map mapOp this fn h = mapOp (it_of this) fn h"

definition Iterable_zip ::
  "(val \<Rightarrow> 'f \<Rightarrow> heap \<Rightarrow> (error + val) \<times> heap) \<Rightarrow> val \<Rightarrow> 'f \<Rightarrow> heap \<Rightarrow> (error + val) \<times> heap" where
  "Iterable_zip zipOp its fn h = zipOp its fn h"

definition proto_zip ::
  "(val \<Rightarrow> 'f \<Rightarrow> heap \<Rightarrow> (error + val) \<times> heap) \<Rightarrow> val \<Rightarrow> val list \<Rightarrow> 'f \<Rightarrow> heap \<Rightarrow> (error + val) \<times> heap" where
  "proto_zip zipOp this its fn h = zipOp (Arr (it_of this # its)) fn h"

text \<open>\<open>new Iterable(s).method(...)\<close>: the constructor, then the method on what it returned.\<close>

definition new_then ::
  "val \<Rightarrow> (val \<Rightarrow> heap \<Rightarrow> (error + val) \<times> heap) \<Rightarrow> heap \<Rightarrow> (error + val) \<times> heap" where
  "new_then s method h =
     (case Iterable_constructor s h of
        (Inl e, h') \<Rightarrow> (Inl e, h')
      | (Inr this, h') \<Rightarrow> method this h')"

definition new_defaultIfEmpty ::
  "utils \<Rightarrow> val \<Rightarrow> val \<Rightarrow> heap \<Rightarrow> (error + val) \<times> heap" where
  "new_defaultIfEmpty U s v h = new_then s (\<lambda>this. proto_defaultIfEmpty U this v) h"

definition new_map ::
  "(val \<Rightarrow> 'f \<Rightarrow> heap \<Rightarrow> (error + val) \<times> heap) \<Rightarrow> val \<Rightarrow> 'f \<Rightarrow> heap \<Rightarrow> (error + val) \<times> heap" where
  "new_map mapOp s fn h = new_then s (\<lambda>this. proto_map mapOp this fn) h"

definition new_zip ::
  "(val \<Rightarrow> 'f \<Rightarrow> heap \<Rightarrow> (error + val) \<times> heap) \<Rightarrow> val \<Rightarrow> val list \<Rightarrow> 'f \<Rightarrow> heap \<Rightarrow> (error + val) \<times> heap" where
  "new_zip zipOp s its fn h = new_then s (\<lambda>this. proto_zip zipOp this its fn) h"

section \<open>Index-style access through the proxy\<close>

text \<open>
  The constructor returns \<open>new Proxy(this, { get(target, index) { ... } })\<close>. JavaScript
  converts the key of every property access to a string or a symbol before a trap sees
  it: \<open>seq[2]\<close> reaches the trap with \<open>index = "2"\<close>. \<open>ToString\<close> is the decimal numeral
  of an integer, and \<open>ToPropertyKey\<close> the key of an access by number, by name, or by the
  symbol \<open>Symbol.iterator\<close>.
\<close>

definition digit_char :: "nat \<Rightarrow> char" where
  "digit_char d = ''0123456789'' ! d"

function decimal :: "nat \<Rightarrow> string" where
  "decimal n = (if n < 10 then [digit_char n] else decimal (n div 10) @ [digit_char (n mod 10)])"
  by pat_completeness auto
termination
  by (relation "measure id") auto

declare decimal.simps [simp del]

definition ToString :: "int \<Rightarrow> string" where
  "ToString i = (if i < 0 then CHR ''-'' # decimal (nat (- i)) else decimal (nat i))"

datatype propname = Index int | Name string | IteratorSymbol

fun ToPropertyKey :: "propname \<Rightarrow> val" where
  "ToPropertyKey (Index i) = Str (ToString i)"
| "ToPropertyKey (Name n) = Str n"
| "ToPropertyKey IteratorSymbol = Symbol ''Symbol.iterator''"

text \<open>
  \<open>index in target\<close> and \<open>target[index]\<close> for an instance: its own field \<open>it\<close>, the
  methods of the class (every non-static method of the source, and \<open>constructor\<close>), the
  method \<open>[Symbol.iterator]\<close>, and what every object inherits.
\<close>

definition Iterable_prototype :: "string list" where
  "Iterable_prototype =
     [''constructor'', ''get'', ''all'', ''any'', ''average'', ''buffer'', ''breakWith'',
      ''cache'', ''compose'', ''concat'', ''contains'', ''count'', ''defaultIfEmpty'',
      ''distinct'', ''distinctAdjacent'', ''elementAt'', ''empty'', ''equal'', ''filter'',
      ''find'', ''first'', ''flat'', ''flatMap'', ''indexOf'', ''intercalate'', ''intersect'',
      ''intersperse'', ''isEmpty'', ''last'', ''map'', ''max'', ''min'', ''onDone'', ''onStart'',
      ''onYield'', ''partition'', ''reduce'', ''repeat'', ''replace'', ''reverse'', ''scan'',
      ''skip'', ''skipLast'', ''skipWhile'', ''sort'', ''sorted'', ''spanWith'', ''split'',
      ''startWith'', ''step'', ''sum'', ''take'', ''takeLast'', ''takeWhile'', ''toArray'',
      ''zip'']"

definition Object_prototype :: "string list" where
  "Object_prototype =
     [''hasOwnProperty'', ''isPrototypeOf'', ''propertyIsEnumerable'', ''toLocaleString'',
      ''toString'', ''valueOf'', ''__proto__'', ''__defineGetter__'', ''__defineSetter__'',
      ''__lookupGetter__'', ''__lookupSetter__'']"

fun in_target :: "val \<Rightarrow> val \<Rightarrow> bool" where
  "in_target (Str n) target =
     (n = ''it'' \<or> n \<in> set Iterable_prototype \<or> n \<in> set Object_prototype)"
| "in_target (Symbol d) target = (d = ''Symbol.iterator'')"
| "in_target _ target = False"

fun member :: "val \<Rightarrow> val \<Rightarrow> val" where
  "member target (Str n) = (if n = ''it'' then it_of target else Member n)"
| "member target (Symbol d) = Member d"
| "member target _ = Undefined"

text \<open>
  The trap:
  \<^verbatim>\<open>
    get(target, index) {
      if (index in target) { return target[index]; }
      if (isNumber(index)) { return target.get(index); }
      return undefined;
    }
  \<close>
\<close>

definition Proxy_get :: "utils \<Rightarrow> val \<Rightarrow> val \<Rightarrow> heap \<Rightarrow> (error + val) \<times> val \<times> heap" where
  "Proxy_get U target index h =
     (if in_target index target then (Inr (member target index), target, h)
      else if isNumber U index then get target index h
      else (Inr Undefined, target, h))"

text \<open>\<open>seq[p]\<close> on the proxy the constructor returned.\<close>

definition index_access :: "utils \<Rightarrow> val \<Rightarrow> propname \<Rightarrow> heap \<Rightarrow> (error + val) \<times> val \<times> heap" where
  "index_access U seq p h = Proxy_get U seq (ToPropertyKey p) h"

section \<open>Example data\<close>

text \<open>A heap with no generator object started and no generator function made iterable.\<close>

definition empty_heap :: heap where
  "empty_heap = \<lparr>gens = (\<lambda>a. []), marks = (\<lambda>f. False), fresh = 0\<rparr>"

text \<open>A heap with one generator object, at address 0, that has still 1, 2 and 3 to yield.\<close>

definition gen_heap :: heap where
  "gen_heap =
     \<lparr>gens = (\<lambda>a. if a = 0 then [Num 1, Num 2, Num 3] else []),
      marks = (\<lambda>f. False), fresh = 1\<rparr>"

section \<open>Operators whose modules are not among the sources\<close>

text \<open>
  \<open>internal/cache\<close>, \<open>internal/split\<close>, \<open>internal/zip\<close> and \<open>internal/equal\<close> are not
  among the sources; only their callers in the class are. Each is modelled from the
  words of the spec, over the list of values an upstream has still to produce.
\<close>

subsection \<open>\<open>cache\<close>\<close>

text \<open>
  Modelled from the spec: the operator \<open>cache\<close> of \<open>internal/cache\<close>, which is missing.
  The spec (4.4): hold a shared Replay Buffer (initially empty, cursor 0, not terminal);
  each traversal of the cached Sequence proceeds by ordinal position: for ordinal \<open>i\<close>, if
  \<open>i < buffer.length\<close>, yield \<open>buffer[i]\<close> directly (no upstream interaction); else, if
  not terminal, pull the next element from upstream, append to buffer, and yield it; if
  upstream signals completion, mark terminal and end the traversal. \<open>pulls\<close> counts the
  elements drawn from the upstream, \<open>probes\<close> every request made to it, the one it
  answers with completion included.
\<close>

record 'a replay =
  buffer :: "'a list"
  terminal :: bool
  upstream :: "'a list"
  pulls :: nat
  probes :: nat

definition cache_init :: "'a list \<Rightarrow> 'a replay" where
  "cache_init S = \<lparr>buffer = [], terminal = False, upstream = S, pulls = 0, probes = 0\<rparr>"

definition cache_at :: "nat \<Rightarrow> 'a replay \<Rightarrow> 'a option \<times> 'a replay" where
  "cache_at i st =
     (if i < length (buffer st) then (Some (buffer st ! i), st)
      else if \<not> terminal st then
        (case upstream st of
           x # rest \<Rightarrow>
             (Some x, st\<lparr>buffer := buffer st @ [x], upstream := rest,
                         pulls := Suc (pulls st), probes := Suc (probes st)\<rparr>)
         | [] \<Rightarrow> (None, st\<lparr>terminal := True, probes := Suc (probes st)\<rparr>))
      else (None, st))"

lemma cache_at_Some:
  "cache_at i st = (Some x, st') \<Longrightarrow>
     (length (upstream st') < length (upstream st)) \<or>
     (upstream st' = upstream st \<and> buffer st' = buffer st \<and> i < length (buffer st))"
  by (auto simp: cache_at_def split: if_splits list.splits)

text \<open>One traversal of the cached Sequence, from ordinal \<open>i\<close> on.\<close>

function cache_traverse :: "nat \<Rightarrow> 'a replay \<Rightarrow> 'a list \<times> 'a replay" where
  "cache_traverse i st =
     (case cache_at i st of
        (None, st') \<Rightarrow> ([], st')
      | (Some x, st') \<Rightarrow>
          (case cache_traverse (Suc i) st' of (xs, st'') \<Rightarrow> (x # xs, st'')))"
  by pat_completeness auto
termination
  apply (relation "measures [\<lambda>(i, st). length (upstream st), \<lambda>(i, st). length (buffer st) - i]")
   apply simp
  apply (auto dest!: cache_at_Some[OF sym])
  done

declare cache_traverse.simps [simp del]

text \<open>\<open>m\<close> traversals, one after the other, over the one shared buffer.\<close>

fun cache_repeat :: "nat \<Rightarrow> 'a replay \<Rightarrow> 'a list list \<times> 'a replay" where
  "cache_repeat 0 st = ([], st)"
| "cache_repeat (Suc m) st =
     (case cache_traverse 0 st of
        (xs, st') \<Rightarrow> (case cache_repeat m st' of (xss, st'') \<Rightarrow> (xs # xss, st'')))"

subsection \<open>\<open>split\<close>\<close>

text \<open>
  Modelled from the spec: the operator \<open>split\<close> of \<open>internal/split\<close>, which is missing.
  The spec (3, 4.5): drive a single shared upstream traversal; classify each produced
  element into branch A or branch B by position < cutoff; append elements that belong
  to the other branch into that branch's buffer instead of discarding them; whichever
  branch is traversed first drives the shared upstream forward; traversing a branch
  replays its buffer first, then continues driving the shared upstream if not yet
  exhausted. \<open>shared\<close> is what the upstream has still to produce, \<open>produced\<close> how many
  elements it has produced.
\<close>

datatype branch = BranchA | BranchB

record 'a split_state =
  shared :: "'a list"
  produced :: nat
  bufferA :: "'a list"
  bufferB :: "'a list"

definition split_init :: "'a list \<Rightarrow> 'a split_state" where
  "split_init S = \<lparr>shared = S, produced = 0, bufferA = [], bufferB = []\<rparr>"

definition side :: "int \<Rightarrow> nat \<Rightarrow> branch" where
  "side cutoff p = (if int p < cutoff then BranchA else BranchB)"

text \<open>
  Driving the upstream for branch \<open>b\<close>: up to the next element that belongs to \<open>b\<close>, the
  elements passed on the way going to the other branch's buffer.
\<close>

fun drive :: "int \<Rightarrow> branch \<Rightarrow> 'a list \<Rightarrow> nat \<Rightarrow> 'a list \<Rightarrow> 'a option \<times> 'a list \<times> nat \<times> 'a list" where
  "drive cutoff b [] p other = (None, [], p, other)"
| "drive cutoff b (x # up) p other =
     (if side cutoff p = b then (Some x, up, Suc p, other)
      else drive cutoff b up (Suc p) (other @ [x]))"

fun branch_next :: "int \<Rightarrow> branch \<Rightarrow> 'a split_state \<Rightarrow> 'a option \<times> 'a split_state" where
  "branch_next cutoff BranchA st =
     (case bufferA st of
        x # rest \<Rightarrow> (Some x, st\<lparr>bufferA := rest\<rparr>)
      | [] \<Rightarrow>
          (case drive cutoff BranchA (shared st) (produced st) (bufferB st) of
             (r, up, p, other) \<Rightarrow> (r, st\<lparr>shared := up, produced := p, bufferB := other\<rparr>)))"
| "branch_next cutoff BranchB st =
     (case bufferB st of
        x # rest \<Rightarrow> (Some x, st\<lparr>bufferB := rest\<rparr>)
      | [] \<Rightarrow>
          (case drive cutoff BranchB (shared st) (produced st) (bufferA st) of
             (r, up, p, other) \<Rightarrow> (r, st\<lparr>shared := up, produced := p, bufferA := other\<rparr>)))"

fun own_buffer :: "branch \<Rightarrow> 'a split_state \<Rightarrow> 'a list" where
  "own_buffer BranchA st = bufferA st"
| "own_buffer BranchB st = bufferB st"

lemma drive_shorter:
  "drive cutoff b up p other = (Some x, up', p', other') \<Longrightarrow> length up' < length up"
  by (induction cutoff b up p other rule: drive.induct) (auto split: if_splits)

lemma branch_next_shorter:
  "branch_next cutoff b st = (Some x, st') \<Longrightarrow>
     length (own_buffer b st') + length (shared st') < length (own_buffer b st) + length (shared st)"
  by (cases b) (auto split: list.splits prod.splits dest: drive_shorter)

text \<open>A complete traversal of one branch.\<close>

function branch_traverse :: "int \<Rightarrow> branch \<Rightarrow> 'a split_state \<Rightarrow> 'a list \<times> 'a split_state" where
  "branch_traverse cutoff b st =
     (case branch_next cutoff b st of
        (None, st') \<Rightarrow> ([], st')
      | (Some x, st') \<Rightarrow>
          (case branch_traverse cutoff b st' of (xs, st'') \<Rightarrow> (x # xs, st'')))"
  by pat_completeness auto
termination
  by (relation "measure (\<lambda>(cutoff, b, st). length (own_buffer b st) + length (shared st))")
     (auto dest!: branch_next_shorter[OF sym])

declare branch_traverse.simps [simp del]

subsection \<open>\<open>zip\<close>\<close>

text \<open>
  Modelled from the spec: the operator \<open>zip\<close> of \<open>internal/zip\<close>, which is missing. The
  spec (4.6): advances all input Sequences one step per output step; stops as soon as
  any input signals completion; yields \<open>combinerFn(values)\<close> where \<open>values\<close> is the
  ordered set of per-step values, or the raw tuple if no combiner is supplied. With no
  input at all no input ever signals completion, and the traversal does not end: the
  run is a partial function, \<open>None\<close> where it does not return.
\<close>

fun zip_round :: "val list list \<Rightarrow> (val list \<times> val list list) option" where
  "zip_round [] = Some ([], [])"
| "zip_round (xs # xss) =
     (case xs of
        [] \<Rightarrow> None
      | x # xs' \<Rightarrow>
          (case zip_round xss of
             None \<Rightarrow> None
           | Some (tuple, rest) \<Rightarrow> Some (x # tuple, xs' # rest)))"

definition combine :: "(val list \<Rightarrow> val) option \<Rightarrow> val list \<Rightarrow> val" where
  "combine combinerFn tuple = (case combinerFn of None \<Rightarrow> Arr tuple | Some f \<Rightarrow> f tuple)"

partial_function (option) zip_run :: "(val list \<Rightarrow> val) option \<Rightarrow> val list list \<Rightarrow> val list option" where
  "zip_run combinerFn seqs =
     (case zip_round seqs of
        None \<Rightarrow> Some []
      | Some (tuple, rest) \<Rightarrow>
          Option.bind (zip_run combinerFn rest) (\<lambda>out. Some (combine combinerFn tuple # out)))"

text \<open>The combiner of the spec's example, \<open>(a, b) => a + b\<close>, on a pair of numbers.\<close>

definition sum_combiner :: "val list \<Rightarrow> val" where
  "sum_combiner tuple = (case tuple of [Num a, Num b] \<Rightarrow> Num (a + b) | _ \<Rightarrow> Undefined)"

subsection \<open>\<open>equal\<close>\<close>

text \<open>
  Modelled from the spec: the operator \<open>equal\<close> of \<open>internal/equal\<close>, which is missing.
  The spec (4.6): advances both in lockstep; yields false at the first index where
  values differ or one is exhausted while the other is not; yields true only if both
  exhaust simultaneously with no prior mismatch. The run returns the verdict and the
  index at which it was reached.
\<close>

fun equal_from :: "nat \<Rightarrow> 'a list \<Rightarrow> 'a list \<Rightarrow> bool \<times> nat" where
  "equal_from i [] [] = (True, i)"
| "equal_from i [] (y # ys) = (False, i)"
| "equal_from i (x # xs) [] = (False, i)"
| "equal_from i (x # xs) (y # ys) = (if x \<noteq> y then (False, i) else equal_from (Suc i) xs ys)"

definition equal_yield :: "'a list \<Rightarrow> 'a list \<Rightarrow> bool" where
  "equal_yield a b = fst (equal_from 0 a b)"

definition equal_index :: "'a list \<Rightarrow> 'a list \<Rightarrow> nat" where
  "equal_index a b = snd (equal_from 0 a b)"

section \<open>Predicates the properties are stated with\<close>

text \<open>
  A source is multi-pass when every traversal of it starts afresh: an array, a string, a
  generator function the constructor has made iterable (each traversal calls it anew), the
  closure of \<open>defaultIfEmpty.js\<close> over such a source, an \<open>Iterable\<close> wrapping one. A
  generator object is single-pass.
\<close>

fun multi_pass :: "heap \<Rightarrow> val \<Rightarrow> bool" where
  "multi_pass h (Arr xs) = True"
| "multi_pass h (Str s) = True"
| "multi_pass h (GenFn f ys) = marks h f"
| "multi_pass h (DefaultIfEmptyFn f iterable v) = (marks h f \<and> multi_pass h iterable)"
| "multi_pass h (IterableObj w) = multi_pass h w"
| "multi_pass h _ = False"

fun heap_free :: "heap \<Rightarrow> iter \<Rightarrow> bool" where
  "heap_free h (GenIter a) = False"
| "heap_free h (DIE_Start iterable v) = multi_pass h iterable"
| "heap_free h (DIE_Loop J flag v) = heap_free h J"
| "heap_free h _ = True"

text \<open>
  The generator objects a source, or an iterator, bottoms out at: the only cells of the
  heap a traversal of it can touch.
\<close>

fun producers :: "val \<Rightarrow> nat set" where
  "producers (GenObj a) = {a}"
| "producers (DefaultIfEmptyFn f iterable v) = producers iterable"
| "producers (IterableObj w) = producers w"
| "producers _ = {}"

fun iter_producers :: "iter \<Rightarrow> nat set" where
  "iter_producers (GenIter a) = {a}"
| "iter_producers (DIE_Start iterable v) = producers iterable"
| "iter_producers (DIE_Loop J flag v) = iter_producers J"
| "iter_producers _ = {}"

text \<open>
  \<open>advanced J h h'\<close>: from \<open>h\<close> to \<open>h'\<close> nothing changed but the position of the generator
  objects under \<open>J\<close>, and a position only moves forward (what is left is a suffix of what
  was left).
\<close>

definition advanced :: "nat set \<Rightarrow> heap \<Rightarrow> heap \<Rightarrow> bool" where
  "advanced A h h' \<longleftrightarrow>
     marks h' = marks h \<and> fresh h' = fresh h \<and>
     (\<forall>a. suffix (gens h' a) (gens h a)) \<and>
     (\<forall>a. a \<notin> A \<longrightarrow> gens h' a = gens h a)"

text \<open>
  A source can be traversed when it exposes the iteration capability and so does every
  source it captures. This is what the constructor and the operators establish before
  they build a value, each by its own check of its argument.
\<close>

fun runnable :: "heap \<Rightarrow> val \<Rightarrow> bool" where
  "runnable h (Arr xs) = True"
| "runnable h (Str s) = True"
| "runnable h (GenObj a) = True"
| "runnable h (GenFn f ys) = marks h f"
| "runnable h (DefaultIfEmptyFn f iterable v) = (marks h f \<and> runnable h iterable)"
| "runnable h (IterableObj w) = runnable h w"
| "runnable h _ = False"

fun iter_runnable :: "heap \<Rightarrow> iter \<Rightarrow> bool" where
  "iter_runnable h (DIE_Start iterable v) = runnable h iterable"
| "iter_runnable h (DIE_Loop J flag v) = iter_runnable h J"
| "iter_runnable h _ = True"

text \<open>
  For \<open>split\<close>: what each branch is still entitled to in a state (its buffer, then its
  share of what the upstream has still to produce), and the state a complete traversal
  of branch \<open>b\<close> leaves.
\<close>

definition due :: "int \<Rightarrow> branch \<Rightarrow> 'a split_state \<Rightarrow> 'a list" where
  "due cutoff b st =
     (case b of
        BranchA \<Rightarrow> bufferA st @ take (nat (cutoff - int (produced st))) (shared st)
      | BranchB \<Rightarrow> bufferB st @ drop (nat (cutoff - int (produced st))) (shared st))"

definition drained :: "int \<Rightarrow> branch \<Rightarrow> 'a split_state \<Rightarrow> 'a split_state" where
  "drained cutoff b st =
     st\<lparr>shared := [], produced := produced st + length (shared st),
        bufferA := (case b of BranchA \<Rightarrow> [] | BranchB \<Rightarrow> due cutoff BranchA st),
        bufferB := (case b of BranchA \<Rightarrow> due cutoff BranchB st | BranchB \<Rightarrow> [])\<rparr>"

text \<open>
  For \<open>zip\<close>: the length of the shortest input, and the tuple of the \<open>i\<close>-th elements of
  the inputs, in the order of the inputs.
\<close>

definition shortest :: "val list list \<Rightarrow> nat" where
  "shortest seqs = Min (set (map length seqs))"

definition row :: "val list list \<Rightarrow> nat \<Rightarrow> val list" where
  "row seqs i = map (\<lambda>xs. xs ! i) seqs"

section \<open>Properties of the iteration protocol\<close>

lemma GetIterator_multi_pass:
  "multi_pass h v \<Longrightarrow> \<exists>J. GetIterator h v = Inr J \<and> heap_free h J"
  by (induction h v rule: GetIterator.induct) auto

lemma IteratorNext_heap_free:
  "heap_free h J \<Longrightarrow> IteratorNext h J = ((r, J'), h') \<Longrightarrow>
     h' = h \<and> heap_free h J' \<and> (\<forall>e. r \<noteq> Throw e)"
proof (induction h J arbitrary: r J' h' rule: IteratorNext.induct)
  case (4 h iterable v)
  from 4(2) obtain J0 where g: "GetIterator h iterable = Inr J0" and p: "heap_free h J0"
    using GetIterator_multi_pass by auto
  obtain r0 J0' h0 where n0: "IteratorNext h J0 = ((r0, J0'), h0)"
    by (metis prod.exhaust)
  from 4(1)[OF g p n0] 4(3) g n0 show ?case
    by (cases r0) (auto simp: DIE_loop_head_def)
next
  case (5 h J flag v)
  obtain r0 J0' h0 where n0: "IteratorNext h J = ((r0, J0'), h0)"
    by (metis prod.exhaust)
  from 5(1)[OF _ n0] 5(2,3) n0 show ?case
    by (cases r0) (auto simp: DIE_loop_head_def)
qed (auto split: if_splits list.splits)

lemma IteratorClose_heap_free: "heap_free h J \<Longrightarrow> IteratorClose h J = h"
  by (induction h J rule: IteratorClose.induct) auto

lemma get_loop_heap_free:
  "heap_free h J \<Longrightarrow> s \<le> i \<Longrightarrow>
     get_loop h J s (Num (int i)) =
       (Inr (if i - s < length (pending h J) then pending h J ! (i - s) else Undefined), h)"
proof (induction "i - s" arbitrary: J s)
  case 0
  obtain r J' h' where n: "IteratorNext h J = ((r, J'), h')"
    by (metis prod.exhaust)
  from IteratorNext_heap_free[OF 0(2) n] IteratorNext_pending[OF n] 0 n show ?case
    by (cases r) (auto simp: get_loop.simps[of h J] IteratorClose_heap_free)
next
  case (Suc d)
  obtain r J' h' where n: "IteratorNext h J = ((r, J'), h')"
    by (metis prod.exhaust)
  from IteratorNext_heap_free[OF Suc(3) n]
  have hf: "h' = h" "heap_free h J'" "\<forall>e. r \<noteq> Throw e" by auto
  from Suc(2,4) have lt: "s < i" "d = i - Suc s" "Suc s \<le> i" by auto
  show ?case
  proof (cases r)
    case (Yield x)
    with IteratorNext_pending[OF n] hf have pd: "pending h J = x # pending h J'" by auto
    from Suc(1)[OF lt(2) hf(2) lt(3)] Yield n hf lt pd Suc(2) show ?thesis
      by (auto simp: get_loop.simps[of h J] Suc_diff_Suc)
  next
    case Done
    with IteratorNext_pending[OF n] hf n show ?thesis
      by (auto simp: get_loop.simps[of h J])
  next
    case (Throw e)
    with hf show ?thesis by auto
  qed
qed

lemma advanced_refl: "advanced A h h"
  by (simp add: advanced_def)

lemma advanced_trans:
  "advanced A h h' \<Longrightarrow> advanced B h' h'' \<Longrightarrow> B \<subseteq> A \<Longrightarrow> advanced A h h''"
  unfolding advanced_def by (auto intro: suffix_order.trans)

lemma advanced_mono: "advanced B h h' \<Longrightarrow> B \<subseteq> A \<Longrightarrow> advanced A h h'"
  unfolding advanced_def by auto

lemma GetIterator_producers: "GetIterator h v = Inr J \<Longrightarrow> iter_producers J = producers v"
  by (induction h v rule: GetIterator.induct) (auto split: if_splits)

lemma IteratorNext_advanced:
  "IteratorNext h J = ((r, J'), h') \<Longrightarrow>
     advanced (iter_producers J) h h' \<and> iter_producers J' \<subseteq> iter_producers J"
proof (induction h J arbitrary: r J' h' rule: IteratorNext.induct)
  case (2 h a)
  then show ?case
    by (auto simp: advanced_def suffix_def split: list.splits)
next
  case (4 h iterable v)
  show ?case
  proof (cases "GetIterator h iterable")
    case (Inl e)
    with 4(2) show ?thesis by (auto simp: advanced_refl)
  next
    case (Inr J0)
    obtain r0 J0' h0 where n0: "IteratorNext h J0 = ((r0, J0'), h0)"
      by (metis prod.exhaust)
    from 4(1)[OF Inr n0] GetIterator_producers[OF Inr] 4(2) Inr n0 show ?thesis
      by (cases r0) (auto simp: DIE_loop_head_def split: if_splits)
  qed
next
  case (5 h J flag v)
  obtain r0 J0' h0 where n0: "IteratorNext h J = ((r0, J0'), h0)"
    by (metis prod.exhaust)
  from 5(1)[OF n0] 5(2) n0 show ?case
    by (cases r0) (auto simp: DIE_loop_head_def split: if_splits)
qed (auto simp: advanced_refl split: if_splits list.splits)

lemma IteratorClose_advanced: "advanced (iter_producers J) h (IteratorClose h J)"
  by (induction h J rule: IteratorClose.induct) (auto simp: advanced_def)

lemma get_loop_advanced:
  "get_loop h J s index = (r, h') \<Longrightarrow> advanced (iter_producers J) h h'"
proof (induction h J s index arbitrary: r h' rule: get_loop.induct)
  case (1 h J s index)
  obtain r0 J0 h0 where n: "IteratorNext h J = ((r0, J0), h0)"
    by (metis prod.exhaust)
  note adv = IteratorNext_advanced[OF n]
  show ?case
  proof (cases r0)
    case (Yield x)
    show ?thesis
    proof (cases "Num (int s) = index")
      case True
      with 1(2) n Yield have "h' = IteratorClose h0 J0"
        by (simp add: get_loop.simps[of h J])
      with adv IteratorClose_advanced[of J0 h0] show ?thesis
        by (blast intro: advanced_trans)
    next
      case False
      with 1(2) n Yield have "get_loop h0 J0 (Suc s) index = (r, h')"
        by (simp add: get_loop.simps[of h J])
      from 1(1)[OF n[symmetric] refl Yield False this] adv show ?thesis
        by (blast intro: advanced_trans)
    qed
  next
    case Done
    with 1(2) n adv show ?thesis by (simp add: get_loop.simps[of h J])
  next
    case (Throw e)
    with 1(2) n adv show ?thesis by (simp add: get_loop.simps[of h J])
  qed
qed

lemma for_of_advanced:
  "for_of h J = (r, h') \<Longrightarrow> advanced (iter_producers J) h h'"
proof (induction h J arbitrary: r h' rule: for_of.induct)
  case (1 h J)
  obtain r0 J0 h0 where n: "IteratorNext h J = ((r0, J0), h0)"
    by (metis prod.exhaust)
  note adv = IteratorNext_advanced[OF n]
  show ?case
  proof (cases r0)
    case (Yield x)
    obtain r1 h1 where f: "for_of h0 J0 = (r1, h1)"
      by (metis prod.exhaust)
    from 1(2) n Yield f have "h' = h1"
      by (cases r1) (simp_all add: for_of.simps[of h J])
    with 1(1)[OF n[symmetric] refl Yield f] adv show ?thesis
      by (blast intro: advanced_trans)
  next
    case Done
    with 1(2) n adv show ?thesis by (simp add: for_of.simps[of h J])
  next
    case (Throw e)
    with 1(2) n adv show ?thesis by (simp add: for_of.simps[of h J])
  qed
qed

lemma runnable_marks: "runnable h v \<Longrightarrow> marks h' = marks h \<Longrightarrow> runnable h' v"
  by (induction h v rule: runnable.induct) auto

lemma iter_runnable_marks:
  "iter_runnable h J \<Longrightarrow> marks h' = marks h \<Longrightarrow> iter_runnable h' J"
  by (induction h J rule: iter_runnable.induct) (auto intro: runnable_marks)

lemma runnable_isIterable: "runnable h v \<Longrightarrow> isIterable h v"
  by (induction h v rule: runnable.induct) auto

lemma multi_pass_runnable: "multi_pass h v \<Longrightarrow> runnable h v"
  by (induction h v rule: runnable.induct) auto

lemma GetIterator_runnable:
  "runnable h v \<Longrightarrow> \<exists>J. GetIterator h v = Inr J \<and> iter_runnable h J"
  by (induction h v rule: GetIterator.induct) auto

lemma IteratorNext_runnable:
  "iter_runnable h J \<Longrightarrow> IteratorNext h J = ((r, J'), h') \<Longrightarrow>
     iter_runnable h' J' \<and> (\<forall>e. r \<noteq> Throw e)"
proof (induction h J arbitrary: r J' h' rule: IteratorNext.induct)
  case (4 h iterable v)
  from 4(2) obtain J0 where g: "GetIterator h iterable = Inr J0" and p: "iter_runnable h J0"
    using GetIterator_runnable by auto
  obtain r0 J0' h0 where n0: "IteratorNext h J0 = ((r0, J0'), h0)"
    by (metis prod.exhaust)
  from 4(1)[OF g p n0] 4(3) g n0 show ?case
    by (cases r0) (auto simp: DIE_loop_head_def)
next
  case (5 h J flag v)
  obtain r0 J0' h0 where n0: "IteratorNext h J = ((r0, J0'), h0)"
    by (metis prod.exhaust)
  from 5(1)[OF _ n0] 5(2,3) n0 show ?case
    by (cases r0) (auto simp: DIE_loop_head_def)
qed (auto split: if_splits list.splits)

lemma for_of_runnable:
  "iter_runnable h J \<Longrightarrow> \<exists>h'. for_of h J = (Inr (pending h J), h')"
proof (induction h J rule: for_of.induct)
  case (1 h J)
  obtain r0 J0 h0 where n: "IteratorNext h J = ((r0, J0), h0)"
    by (metis prod.exhaust)
  note rn = IteratorNext_runnable[OF 1(2) n] and pd = IteratorNext_pending[OF n]
  show ?case
  proof (cases r0)
    case (Yield x)
    from 1(1)[OF n[symmetric] refl Yield] rn
    obtain h1 where "for_of h0 J0 = (Inr (pending h0 J0), h1)" by auto
    with n Yield pd show ?thesis by (simp add: for_of.simps[of h J])
  next
    case Done
    with n pd show ?thesis by (simp add: for_of.simps[of h J])
  next
    case (Throw e)
    with rn show ?thesis by simp
  qed
qed

lemma traverse_runnable:
  "runnable h v \<Longrightarrow> \<exists>h'. traverse v h = (Inr (elements h v), h')"
proof -
  assume "runnable h v"
  then obtain J where g: "GetIterator h v = Inr J" and r: "iter_runnable h J"
    using GetIterator_runnable by blast
  from for_of_runnable[OF r] obtain h' where "for_of h J = (Inr (pending h J), h')"
    by blast
  with g GetIterator_pending[OF g] show ?thesis
    by (simp add: traverse_def)
qed

lemma IteratorNext_drained:
  "IteratorNext h J = ((r, J'), h') \<Longrightarrow> iter_runnable h J \<Longrightarrow> a \<in> iter_producers J \<Longrightarrow>
     r = Done \<or> a \<notin> iter_producers J' \<Longrightarrow> gens h' a = []"
proof (induction h J arbitrary: r J' h' rule: IteratorNext.induct)
  case (4 h iterable v)
  from 4(3) obtain J0 where g: "GetIterator h iterable = Inr J0" and p: "iter_runnable h J0"
    using GetIterator_runnable by auto
  obtain r0 J0' h0 where n0: "IteratorNext h J0 = ((r0, J0'), h0)"
    by (metis prod.exhaust)
  from 4(4) GetIterator_producers[OF g] have a: "a \<in> iter_producers J0" by simp
  note ih = 4(1)[OF g n0 p a]
  from IteratorNext_runnable[OF p n0] have nt: "\<forall>e. r0 \<noteq> Throw e" by simp
  show ?case
  proof (cases r0)
    case (Yield x)
    with 4(2,5) g n0 have "J' = DIE_Loop J0' True v" "h' = h0" "a \<notin> iter_producers J0'"
      by (auto simp: DIE_loop_head_def)
    with ih show ?thesis by simp
  next
    case Done
    with 4(2) g n0 have "h' = h0" by (auto simp: DIE_loop_head_def)
    with ih Done show ?thesis by simp
  next
    case (Throw e)
    with nt show ?thesis by simp
  qed
next
  case (5 h J flag v)
  obtain r0 J0' h0 where n0: "IteratorNext h J = ((r0, J0'), h0)"
    by (metis prod.exhaust)
  from 5(3,4) have p: "iter_runnable h J" and a: "a \<in> iter_producers J" by simp_all
  note ih = 5(1)[OF n0 p a]
  from IteratorNext_runnable[OF p n0] have nt: "\<forall>e. r0 \<noteq> Throw e" by simp
  show ?case
  proof (cases r0)
    case (Yield x)
    with 5(2,5) n0 have "J' = DIE_Loop J0' False v" "h' = h0" "a \<notin> iter_producers J0'"
      by (auto simp: DIE_loop_head_def)
    with ih show ?thesis by simp
  next
    case Done
    with 5(2) n0 have "h' = h0" by (auto simp: DIE_loop_head_def)
    with ih Done show ?thesis by simp
  next
    case (Throw e)
    with nt show ?thesis by simp
  qed
qed (auto split: if_splits list.splits)

lemma for_of_drains:
  "iter_runnable h J \<Longrightarrow> for_of h J = (r, h') \<Longrightarrow> a \<in> iter_producers J \<Longrightarrow> gens h' a = []"
proof (induction h J arbitrary: r h' rule: for_of.induct)
  case (1 h J)
  obtain r0 J0 h0 where n: "IteratorNext h J = ((r0, J0), h0)"
    by (metis prod.exhaust)
  note rn = IteratorNext_runnable[OF 1(2) n]
  show ?case
  proof (cases r0)
    case (Yield x)
    obtain r1 h1 where f: "for_of h0 J0 = (r1, h1)" by (metis prod.exhaust)
    from 1(3) n Yield f have h': "h' = h1"
      by (cases r1) (simp_all add: for_of.simps[of h J])
    show ?thesis
    proof (cases "a \<in> iter_producers J0")
      case True
      from rn have "iter_runnable h0 J0" by simp
      from 1(1)[OF n[symmetric] refl Yield this f True] h' show ?thesis by simp
    next
      case False
      from IteratorNext_drained[OF n 1(2) 1(4)] False have "gens h0 a = []" by simp
      moreover from for_of_advanced[OF f] False have "gens h1 a = gens h0 a"
        by (simp add: advanced_def)
      ultimately show ?thesis using h' by simp
    qed
  next
    case Done
    with 1(3) n have "h' = h0" by (simp add: for_of.simps[of h J])
    with IteratorNext_drained[OF n 1(2) 1(4)] Done show ?thesis by simp
  next
    case (Throw e)
    with rn show ?thesis by simp
  qed
qed

lemma traverse_complete:
  "runnable h v \<Longrightarrow>
     \<exists>h'. traverse v h = (Inr (elements h v), h') \<and> marks h' = marks h \<and> fresh h' = fresh h \<and>
          gens h' = (\<lambda>a. if a \<in> producers v then [] else gens h a)"
proof -
  assume "runnable h v"
  then obtain J where g: "GetIterator h v = Inr J" and r: "iter_runnable h J"
    using GetIterator_runnable by blast
  from for_of_runnable[OF r] obtain h' where f: "for_of h J = (Inr (pending h J), h')"
    by blast
  note adv = for_of_advanced[OF f] and dr = for_of_drains[OF r f] and pr = GetIterator_producers[OF g]
  have "gens h' = (\<lambda>a. if a \<in> producers v then [] else gens h a)"
  proof
    fix a
    show "gens h' a = (if a \<in> producers v then [] else gens h a)"
      using adv dr[of a] pr by (auto simp: advanced_def)
  qed
  with g f adv GetIterator_pending[OF g] show ?thesis
    by (simp add: traverse_def advanced_def)
qed

section \<open>Index access: \<open>get\<close>\<close>

text \<open>
  C5. For an \<open>Iterable\<close> wrapping a multi-pass source \<open>s\<close> and a natural number \<open>i\<close>,
  \<open>get(i)\<close> traverses \<open>s\<close> from its start and returns the element at the zero-based
  ordinal \<open>i\<close> when \<open>s\<close> has more than \<open>i\<close> elements, and \<open>undefined\<close> when the traversal
  completes first. The heap after the call is the heap before it, so every call is a
  fresh traversal from the start. For an array \<open>Arr xs\<close> the elements are \<open>xs\<close>.
\<close>

theorem get_multi_pass:
  "multi_pass h s \<Longrightarrow>
     get (IterableObj s) (Num (int i)) h =
       (Inr (if i < length (elements h s) then elements h s ! i else Undefined),
        IterableObj s, h)"
proof -
  assume mp: "multi_pass h s"
  then obtain J where g: "GetIterator h s = Inr J" and hf: "heap_free h J"
    using GetIterator_multi_pass by blast
  from get_loop_heap_free[OF hf, of 0 i] GetIterator_pending[OF g] g
  show ?thesis by (simp add: get_def)
qed

theorem get_multi_pass_witness:
  "multi_pass empty_heap (Arr [Num 10, Num 20, Num 30]) \<and>
   get (IterableObj (Arr [Num 10, Num 20, Num 30])) (Num 1) empty_heap =
     (Inr (Num 20), IterableObj (Arr [Num 10, Num 20, Num 30]), empty_heap) \<and>
   get (IterableObj (Arr [Num 10, Num 20, Num 30])) (Num 5) empty_heap =
     (Inr Undefined, IterableObj (Arr [Num 10, Num 20, Num 30]), empty_heap)"
  using get_multi_pass[of empty_heap "Arr [Num 10, Num 20, Num 30]" 1]
        get_multi_pass[of empty_heap "Arr [Num 10, Num 20, Num 30]" 5]
  by simp

text \<open>
  On a single-pass source the traversal starts where the producer stands: \<open>get(i)\<close>
  returns the element at ordinal \<open>i\<close> of what the wrapped reference has still to yield,
  and \<open>undefined\<close> past its remaining elements.
\<close>

lemma get_loop_runnable:
  "iter_runnable h J \<Longrightarrow> s \<le> i \<Longrightarrow>
     fst (get_loop h J s (Num (int i))) =
       Inr (if i - s < length (pending h J) then pending h J ! (i - s) else Undefined)"
proof (induction "i - s" arbitrary: h J s)
  case 0
  obtain r J' h' where n: "IteratorNext h J = ((r, J'), h')"
    by (metis prod.exhaust)
  from IteratorNext_runnable[OF 0(2) n] IteratorNext_pending[OF n] 0 n show ?case
    by (cases r) (auto simp: get_loop.simps[of h J])
next
  case (Suc d)
  obtain r J' h' where n: "IteratorNext h J = ((r, J'), h')"
    by (metis prod.exhaust)
  from IteratorNext_runnable[OF Suc(3) n]
  have rn: "iter_runnable h' J'" "\<forall>e. r \<noteq> Throw e" by auto
  from Suc(2,4) have lt: "s < i" "d = i - Suc s" "Suc s \<le> i" by auto
  show ?case
  proof (cases r)
    case (Yield x)
    with IteratorNext_pending[OF n] have pd: "pending h J = x # pending h' J'" by auto
    from Suc(1)[OF lt(2) rn(1) lt(3)] Yield n lt pd Suc(2) show ?thesis
      by (auto simp: get_loop.simps[of h J] Suc_diff_Suc)
  next
    case Done
    with IteratorNext_pending[OF n] n show ?thesis
      by (auto simp: get_loop.simps[of h J])
  next
    case (Throw e)
    with rn show ?thesis by auto
  qed
qed

lemma get_runnable:
  "runnable h s \<Longrightarrow>
     fst (get (IterableObj s) (Num (int i)) h) =
       Inr (if i < length (elements h s) then elements h s ! i else Undefined)"
proof -
  assume "runnable h s"
  then obtain J where g: "GetIterator h s = Inr J" and r: "iter_runnable h J"
    using GetIterator_runnable by blast
  from get_loop_runnable[OF r, of 0 i] GetIterator_pending[OF g] g show ?thesis
    by (simp add: get_def case_prod_beta)
qed

section \<open>A traversal does not mutate the \<open>Iterable\<close>\<close>

text \<open>
  C9. Neither \<open>get(index)\<close>, nor beginning a traversal (the method \<open>[ITERATOR]\<close>), nor
  a complete traversal mutates the \<open>Iterable\<close>: the receiver after the call is the receiver
  before it, so its field \<open>it\<close> is the same reference. Beginning a traversal changes
  nothing at all. \<open>get\<close> and a complete traversal change the heap only in the position of
  the generator objects the wrapped source bottoms out at, and only forward: no generator
  function is marked or unmarked, no other generator object moves, and what a generator
  object has left afterwards is a suffix of what it had left before.
\<close>

theorem traversal_frame:
  "(let (r, this', h') = get this index h in
      this' = this \<and> it_of this' = it_of this \<and> advanced (producers (it_of this)) h h') \<and>
   (let (r, this', h') = Iterable_ITERATOR this h in
      this' = this \<and> it_of this' = it_of this \<and> h' = h) \<and>
   (let (r, this', h') = traverse_Iterable this h in
      this' = this \<and> it_of this' = it_of this \<and> advanced (producers (it_of this)) h h')"
proof -
  have a: "case get this index h of (r, this', h') \<Rightarrow>
      this' = this \<and> advanced (producers (it_of this)) h h'"
  proof (cases "GetIterator h (it_of this)")
    case (Inl e)
    then show ?thesis by (simp add: get_def advanced_refl)
  next
    case (Inr J)
    obtain r h' where g: "get_loop h J 0 index = (r, h')" by (metis prod.exhaust)
    from get_loop_advanced[OF g] GetIterator_producers[OF Inr] Inr g show ?thesis
      by (simp add: get_def)
  qed
  have b: "case Iterable_ITERATOR this h of (r, this', h') \<Rightarrow> this' = this \<and> h' = h"
    by (simp add: Iterable_ITERATOR_def)
  have c: "case traverse_Iterable this h of (r, this', h') \<Rightarrow>
      this' = this \<and> advanced (producers (it_of this)) h h'"
  proof (cases "GetIterator h (it_of this)")
    case (Inl e)
    then show ?thesis
      by (simp add: traverse_Iterable_def Iterable_ITERATOR_def advanced_refl)
  next
    case (Inr J)
    obtain r h' where g: "for_of h J = (r, h')" by (metis prod.exhaust)
    from for_of_advanced[OF g] GetIterator_producers[OF Inr] Inr g show ?thesis
      by (simp add: traverse_Iterable_def Iterable_ITERATOR_def)
  qed
  from a b c show ?thesis by (auto simp: case_prod_beta)
qed

lemma get_gen_heap_result:
  "fst (get (IterableObj (GenObj 0)) (Num 1) gen_heap) = Inr (Num 2)"
  by code_simp

lemma get_gen_heap_closed:
  "gens (snd (snd (get (IterableObj (GenObj 0)) (Num 1) gen_heap))) 0 = []"
  by code_simp

theorem traversal_frame_witness:
  "fst (get (IterableObj (GenObj 0)) (Num 1) gen_heap) = Inr (Num 2) \<and>
   fst (snd (get (IterableObj (GenObj 0)) (Num 1) gen_heap)) = IterableObj (GenObj 0) \<and>
   advanced {0} gen_heap (snd (snd (get (IterableObj (GenObj 0)) (Num 1) gen_heap))) \<and>
   gens (snd (snd (get (IterableObj (GenObj 0)) (Num 1) gen_heap))) 0 = []"
  using traversal_frame[of "IterableObj (GenObj 0)" "Num 1" gen_heap]
        get_gen_heap_result get_gen_heap_closed
  by (simp add: case_prod_beta)

section \<open>\<open>defaultIfEmpty\<close> yields the source or the default\<close>

lemma runnable_mono:
  "runnable h v \<Longrightarrow> (\<And>f. marks h f \<Longrightarrow> marks h' f) \<Longrightarrow> runnable h' v"
  by (induction h v rule: runnable.induct) auto

lemma elements_gens: "gens h' = gens h \<Longrightarrow> elements h v = elements h' v"
  by (induction h v rule: elements.induct) auto

text \<open>
  C10. The check of the argument happens at the call: a value that does not expose the
  iteration capability is refused there with the bad-argument error for argument 1 of
  the operator, and the heap is untouched. For a source \<open>s\<close> that can be traversed the
  call returns an \<open>Iterable\<close> without advancing any generator object (no traversal of
  \<open>s\<close> has begun), and a traversal of the result yields exactly the elements a traversal
  of \<open>s\<close> yields, in their order, when there is at least one, and exactly the single
  element \<open>v\<close> when there is none. Both traversals leave every generator object in the
  same position.
\<close>

theorem defaultIfEmpty_yields:
  "(\<not> isIterable h s \<longrightarrow>
      defaultIfEmpty U s v h =
        (Inl (BadArgumentError 1 (defineField U ''defaultIfEmpty'') (expectedIterable U)), h)) \<and>
   (runnable h s \<longrightarrow>
      (\<exists>res h1 h2 h3.
         defaultIfEmpty U s v h = (Inr res, h1) \<and> gens h1 = gens h \<and>
         traverse res h1 = (Inr (if elements h s = [] then [v] else elements h s), h2) \<and>
         traverse s h = (Inr (elements h s), h3) \<and>
         gens h2 = gens h3))"
proof (intro conjI impI)
  assume "\<not> isIterable h s"
  then show "defaultIfEmpty U s v h =
        (Inl (BadArgumentError 1 (defineField U ''defaultIfEmpty'') (expectedIterable U)), h)"
    by (simp add: defaultIfEmpty_def IterableCheck_def FIELD_defaultIfEmpty_def)
next
  assume r: "runnable h s"
  define f where "f = fresh h"
  define h1 where "h1 = h\<lparr>fresh := Suc f, marks := (marks h)(f := True)\<rparr>"
  define res where "res = IterableObj (DefaultIfEmptyFn f s v)"
  from r have d: "defaultIfEmpty U s v h = (Inr res, h1)"
    by (simp add: defaultIfEmpty_def IterableCheck_def runnable_isIterable
        Iterable_constructor_def f_def h1_def res_def Let_def)
  have g: "gens h1 = gens h" by (simp add: h1_def)
  from r have "runnable h1 s" by (rule runnable_mono) (simp add: h1_def)
  then have "runnable h1 res" by (simp add: res_def h1_def)
  from traverse_complete[OF this] obtain h2 where
    t2: "traverse res h1 = (Inr (elements h1 res), h2)"
    and g2: "gens h2 = (\<lambda>a. if a \<in> producers res then [] else gens h1 a)" by blast
  from traverse_complete[OF r] obtain h3 where
    t3: "traverse s h = (Inr (elements h s), h3)"
    and g3: "gens h3 = (\<lambda>a. if a \<in> producers s then [] else gens h a)" by blast
  have e: "elements h1 res = (if elements h s = [] then [v] else elements h s)"
    using elements_gens[OF g, of s] by (simp add: res_def split: list.splits)
  have "gens h2 = gens h3" unfolding g2 g3 g res_def by simp
  with d g t2 t3 e
  show "\<exists>res h1 h2 h3.
         defaultIfEmpty U s v h = (Inr res, h1) \<and> gens h1 = gens h \<and>
         traverse res h1 = (Inr (if elements h s = [] then [v] else elements h s), h2) \<and>
         traverse s h = (Inr (elements h s), h3) \<and>
         gens h2 = gens h3"
    by auto
qed

theorem defaultIfEmpty_yields_witness:
  "\<not> isIterable gen_heap (Num 5) \<and>
   defaultIfEmpty example_utils (Num 5) (Num 9) gen_heap =
     (Inl (BadArgumentError 1 ''Iterable.defaultIfEmpty'' ''Iterable''), gen_heap) \<and>
   runnable gen_heap (Arr []) \<and>
   (\<exists>res h1 h2. defaultIfEmpty example_utils (Arr []) (Num 9) gen_heap = (Inr res, h1) \<and>
      traverse res h1 = (Inr [Num 9], h2)) \<and>
   runnable gen_heap (GenObj 0) \<and>
   (\<exists>res h1 h2. defaultIfEmpty example_utils (GenObj 0) (Num 9) gen_heap = (Inr res, h1) \<and>
      traverse res h1 = (Inr [Num 1, Num 2, Num 3], h2))"
proof -
  have a: "\<not> isIterable gen_heap (Num 5)" by simp
  have b: "runnable gen_heap (Arr [])" by simp
  have c: "runnable gen_heap (GenObj 0)" by simp
  from defaultIfEmpty_yields[of gen_heap "Num 5" example_utils "Num 9"] a
  have 1: "defaultIfEmpty example_utils (Num 5) (Num 9) gen_heap =
     (Inl (BadArgumentError 1 ''Iterable.defaultIfEmpty'' ''Iterable''), gen_heap)"
    by (simp add: example_utils_def)
  from defaultIfEmpty_yields[of gen_heap "Arr []" example_utils "Num 9"] b
  have 2: "\<exists>res h1 h2. defaultIfEmpty example_utils (Arr []) (Num 9) gen_heap = (Inr res, h1) \<and>
      traverse res h1 = (Inr [Num 9], h2)"
    by auto
  from defaultIfEmpty_yields[of gen_heap "GenObj 0" example_utils "Num 9"] c
  have 3: "\<exists>res h1 h2. defaultIfEmpty example_utils (GenObj 0) (Num 9) gen_heap = (Inr res, h1) \<and>
      traverse res h1 = (Inr [Num 1, Num 2, Num 3], h2)"
    by (auto simp: gen_heap_def)
  from a b c 1 2 3 show ?thesis by blast
qed

section \<open>The two call shapes agree on iterable sources\<close>

lemma mark_again: "marks h f \<Longrightarrow> h\<lparr>marks := (marks h)(f := True)\<rparr> = h"
proof -
  assume "marks h f"
  then have "(marks h)(f := True) = marks h" by (auto simp: fun_upd_idem_iff)
  then show ?thesis by simp
qed

lemma constructor_isIterable:
  "isIterable h s \<Longrightarrow> Iterable_constructor s h = (Inr (IterableObj s), h)"
  by (cases s) (auto simp: Iterable_constructor_def mark_again)

lemma constructor_wraps:
  "Iterable_constructor s h = (Inr this, h') \<Longrightarrow> this = IterableObj s"
  by (auto simp: Iterable_constructor_def split: option.splits if_splits)

text \<open>
  C8, as the code has it. A method gives what the static function gives on the wrapped
  reference in the same heap: for every source the constructor accepts, in the heap the
  constructor left. For a source that already exposes the iteration capability the
  constructor changes nothing, so \<open>new Iterable(s).op(args)\<close> and \<open>Iterable.op(s, args)\<close>
  are the same from any heap (for \<open>zip\<close> the static shape takes \<open>[s, ...its]\<close>). The
  operator behind \<open>map\<close> and \<open>zip\<close> is arbitrary.
\<close>

theorem call_shapes_agree:
  "(isIterable h s \<longrightarrow>
      new_map mapOp s fn h = Iterable_map mapOp s fn h \<and>
      new_zip zipOp s its fn h = Iterable_zip zipOp (Arr (s # its)) fn h \<and>
      new_defaultIfEmpty U s v h = Iterable_defaultIfEmpty U s v h) \<and>
   (Iterable_constructor s h = (Inr this, h') \<longrightarrow>
      proto_map mapOp this fn h' = Iterable_map mapOp s fn h' \<and>
      proto_zip zipOp this its fn h' = Iterable_zip zipOp (Arr (s # its)) fn h' \<and>
      proto_defaultIfEmpty U this v h' = Iterable_defaultIfEmpty U s v h')"
proof (intro conjI impI)
  assume i: "isIterable h s"
  show "new_map mapOp s fn h = Iterable_map mapOp s fn h"
    by (simp add: new_map_def new_then_def constructor_isIterable[OF i]
        proto_map_def Iterable_map_def)
  show "new_zip zipOp s its fn h = Iterable_zip zipOp (Arr (s # its)) fn h"
    by (simp add: new_zip_def new_then_def constructor_isIterable[OF i]
        proto_zip_def Iterable_zip_def)
  show "new_defaultIfEmpty U s v h = Iterable_defaultIfEmpty U s v h"
    by (simp add: new_defaultIfEmpty_def new_then_def constructor_isIterable[OF i]
        proto_defaultIfEmpty_def Iterable_defaultIfEmpty_def)
next
  assume c: "Iterable_constructor s h = (Inr this, h')"
  note t = constructor_wraps[OF c]
  show "proto_map mapOp this fn h' = Iterable_map mapOp s fn h'"
    by (simp add: t proto_map_def Iterable_map_def)
  show "proto_zip zipOp this its fn h' = Iterable_zip zipOp (Arr (s # its)) fn h'"
    by (simp add: t proto_zip_def Iterable_zip_def)
  show "proto_defaultIfEmpty U this v h' = Iterable_defaultIfEmpty U s v h'"
    by (simp add: t proto_defaultIfEmpty_def Iterable_defaultIfEmpty_def)
qed

theorem call_shapes_agree_witness:
  "isIterable gen_heap (GenObj 0) \<and>
   new_defaultIfEmpty example_utils (GenObj 0) (Num 9) gen_heap =
     Iterable_defaultIfEmpty example_utils (GenObj 0) (Num 9) gen_heap \<and>
   new_zip (\<lambda>its fn h. (Inr its, h)) (GenObj 0) [Arr [Num 7]] () gen_heap =
     (Inr (Arr [GenObj 0, Arr [Num 7]]), gen_heap) \<and>
   Iterable_constructor (GenFn 0 [Num 1]) gen_heap =
     (Inr (IterableObj (GenFn 0 [Num 1])), gen_heap\<lparr>marks := (marks gen_heap)(0 := True)\<rparr>) \<and>
   proto_defaultIfEmpty example_utils (IterableObj (GenFn 0 [Num 1])) (Num 9)
       (gen_heap\<lparr>marks := (marks gen_heap)(0 := True)\<rparr>) =
     Iterable_defaultIfEmpty example_utils (GenFn 0 [Num 1]) (Num 9)
       (gen_heap\<lparr>marks := (marks gen_heap)(0 := True)\<rparr>)"
proof -
  have i: "isIterable gen_heap (GenObj 0)" by simp
  have c: "Iterable_constructor (GenFn 0 [Num 1]) gen_heap =
     (Inr (IterableObj (GenFn 0 [Num 1])), gen_heap\<lparr>marks := (marks gen_heap)(0 := True)\<rparr>)"
    by (simp add: Iterable_constructor_def)
  from call_shapes_agree[of gen_heap "GenObj 0" "\<lambda>its fn h. (Inr its, h)" "()"
      "\<lambda>its fn h. (Inr its, h)" "[Arr [Num 7]]" example_utils "Num 9"] i
  have 1: "new_defaultIfEmpty example_utils (GenObj 0) (Num 9) gen_heap =
     Iterable_defaultIfEmpty example_utils (GenObj 0) (Num 9) gen_heap"
    and 2: "new_zip (\<lambda>its fn h. (Inr its, h)) (GenObj 0) [Arr [Num 7]] () gen_heap =
     (Inr (Arr [GenObj 0, Arr [Num 7]]), gen_heap)"
    by (simp_all add: Iterable_zip_def)
  from call_shapes_agree[of gen_heap "GenFn 0 [Num 1]" "\<lambda>its fn h. (Inr its, h)" "()"
      "\<lambda>its fn h. (Inr its, h)" "[]" example_utils "Num 9"
      "IterableObj (GenFn 0 [Num 1])" "gen_heap\<lparr>marks := (marks gen_heap)(0 := True)\<rparr>"] c
  have 3: "proto_defaultIfEmpty example_utils (IterableObj (GenFn 0 [Num 1])) (Num 9)
       (gen_heap\<lparr>marks := (marks gen_heap)(0 := True)\<rparr>) =
     Iterable_defaultIfEmpty example_utils (GenFn 0 [Num 1]) (Num 9)
       (gen_heap\<lparr>marks := (marks gen_heap)(0 := True)\<rparr>)"
    by simp
  from i c 1 2 3 show ?thesis by simp
qed

text \<open>
  C8, as stated, fails for a generator function that no constructor call has made
  iterable yet: the static shape refuses it at the capability check, the method shape
  succeeds, because the constructor assigns \<open>it[ITERATOR] = it\<close> first.
\<close>

theorem call_shapes_differ:
  "Iterable_defaultIfEmpty example_utils (GenFn 0 [Num 1]) (Num 9) gen_heap =
     (Inl (BadArgumentError 1 ''Iterable.defaultIfEmpty'' ''Iterable''), gen_heap) \<and>
   fst (new_defaultIfEmpty example_utils (GenFn 0 [Num 1]) (Num 9) gen_heap) =
     Inr (IterableObj (DefaultIfEmptyFn 1 (GenFn 0 [Num 1]) (Num 9))) \<and>
   new_defaultIfEmpty example_utils (GenFn 0 [Num 1]) (Num 9) gen_heap \<noteq>
     Iterable_defaultIfEmpty example_utils (GenFn 0 [Num 1]) (Num 9) gen_heap"
  by (simp add: Iterable_defaultIfEmpty_def new_defaultIfEmpty_def new_then_def
      proto_defaultIfEmpty_def defaultIfEmpty_def IterableCheck_def FIELD_defaultIfEmpty_def
      Iterable_constructor_def example_utils_def gen_heap_def Let_def)

section \<open>Index-style access never reaches \<open>get\<close> with a number\<close>

lemma ToString_1: "ToString 1 = ''1''"
  by code_simp

lemma digit_char_digit: "d < 10 \<Longrightarrow> digit_char d \<in> set ''0123456789''"
  unfolding digit_char_def by (rule nth_mem) simp

lemma decimal_hd: "decimal n \<noteq> [] \<and> hd (decimal n) \<in> set ''0123456789''"
proof (induction n rule: decimal.induct)
  case (1 n)
  show ?case
  proof (cases "n < 10")
    case True
    then show ?thesis using digit_char_digit[of n] by (subst (1 2) decimal.simps) simp
  next
    case False
    with 1 show ?thesis by (subst (1 2) decimal.simps) simp
  qed
qed

lemma ToString_hd: "ToString i \<noteq> [] \<and> hd (ToString i) \<in> set ''-0123456789''"
  using decimal_hd[of "nat i"] decimal_hd[of "nat (- i)"] by (auto simp: ToString_def)

lemma member_names_start:
  "\<forall>n \<in> set (''it'' # Iterable_prototype @ Object_prototype).
     hd n \<in> set ''abcdefghijklmnopqrstuvwxyz_''"
  by code_simp

lemma digits_not_letters:
  "\<forall>c \<in> set ''-0123456789''. c \<notin> set ''abcdefghijklmnopqrstuvwxyz_''"
  by code_simp

lemma member_hd:
  "n = ''it'' \<or> n \<in> set Iterable_prototype \<or> n \<in> set Object_prototype \<Longrightarrow>
     hd n \<notin> set ''-0123456789''"
proof -
  assume "n = ''it'' \<or> n \<in> set Iterable_prototype \<or> n \<in> set Object_prototype"
  then have "n \<in> set (''it'' # Iterable_prototype @ Object_prototype)" by auto
  with member_names_start have "hd n \<in> set ''abcdefghijklmnopqrstuvwxyz_''" by blast
  with digits_not_letters show ?thesis by blast
qed

lemma numeral_key_not_member: "\<not> in_target (Str (ToString i)) t"
  using ToString_hd[of i] member_hd[of "ToString i"] by auto

lemma get_loop_not_number:
  "heap_free h J \<Longrightarrow> (\<And>n. index \<noteq> Num (int n)) \<Longrightarrow>
     get_loop h J s index = (Inr Undefined, h)"
proof (induction h J s index rule: get_loop.induct)
  case (1 h J s index)
  obtain r0 J0 h0 where n: "IteratorNext h J = ((r0, J0), h0)"
    by (metis prod.exhaust)
  from IteratorNext_heap_free[OF 1(2) n]
  have hf: "h0 = h" "heap_free h J0" "\<forall>e. r0 \<noteq> Throw e" by auto
  show ?case
  proof (cases r0)
    case (Yield x)
    from 1(3) have ne: "Num (int s) \<noteq> index" by metis
    from 1(1)[OF n[symmetric] refl Yield ne] hf 1(3)
    have "get_loop h0 J0 (Suc s) index = (Inr Undefined, h)" by simp
    with n Yield ne show ?thesis by (simp add: get_loop.simps[of h J])
  next
    case Done
    with n hf show ?thesis by (simp add: get_loop.simps[of h J])
  next
    case (Throw e)
    with hf show ?thesis by simp
  qed
qed

text \<open>
  C6 at \<open>new Iterable([10, 20, 30])[1]\<close>. The trap receives the string \<open>"1"\<close>, which is
  not a member. Whatever \<open>isNumber\<close> answers for a string, the result is \<open>undefined\<close>:
  either the trap falls through, or it calls \<open>get("1")\<close>, whose \<open>s === index\<close> compares a
  number with a string and never holds. \<open>get(1)\<close> on the same \<open>Iterable\<close> is 20.
\<close>

theorem index_access_undefined:
  "index_access U (IterableObj (Arr [Num 10, Num 20, Num 30])) (Index 1) h =
     (Inr Undefined, IterableObj (Arr [Num 10, Num 20, Num 30]), h) \<and>
   get (IterableObj (Arr [Num 10, Num 20, Num 30])) (Num 1) h =
     (Inr (Num 20), IterableObj (Arr [Num 10, Num 20, Num 30]), h)"
proof -
  have g: "get (IterableObj (Arr [Num 10, Num 20, Num 30])) (Str ''1'') h =
      (Inr Undefined, IterableObj (Arr [Num 10, Num 20, Num 30]), h)"
    using get_loop_not_number[of h "ArrayIterator [Num 10, Num 20, Num 30] 0" "Str ''1''" 0]
    by (simp add: get_def)
  have "index_access U (IterableObj (Arr [Num 10, Num 20, Num 30])) (Index 1) h =
     (Inr Undefined, IterableObj (Arr [Num 10, Num 20, Num 30]), h)"
    using g numeral_key_not_member[of 1] by (simp add: index_access_def Proxy_get_def ToString_1)
  moreover have "get (IterableObj (Arr [Num 10, Num 20, Num 30])) (Num 1) h =
     (Inr (Num 20), IterableObj (Arr [Num 10, Num 20, Num 30]), h)"
    using get_loop_heap_free[of h "ArrayIterator [Num 10, Num 20, Num 30] 0" 0 1]
    by (simp add: get_def)
  ultimately show ?thesis by simp
qed

text \<open>
  The same for every index and every multi-pass source: the decimal numeral of an
  integer begins with a digit or a minus sign and no member's name does, so index-style
  access never finds a member and never reaches \<open>get\<close> with a number.
\<close>

lemma index_access_never_an_element:
  "multi_pass h s \<Longrightarrow>
     index_access U (IterableObj s) (Index i) h = (Inr Undefined, IterableObj s, h)"
proof -
  assume mp: "multi_pass h s"
  then obtain J where g: "GetIterator h s = Inr J" and hf: "heap_free h J"
    using GetIterator_multi_pass by blast
  have "get (IterableObj s) (Str (ToString i)) h = (Inr Undefined, IterableObj s, h)"
    using get_loop_not_number[OF hf, of "Str (ToString i)" 0] g by (simp add: get_def)
  with numeral_key_not_member[of i] show ?thesis
    by (simp add: index_access_def Proxy_get_def)
qed

text \<open>
  The part of C6 that holds: the trap looks the key up as a member first, whatever the
  key, and only then considers \<open>get\<close>.
\<close>

lemma Proxy_get_member_first:
  "in_target index target \<Longrightarrow>
     Proxy_get U target index h = (Inr (member target index), target, h)"
  by (simp add: Proxy_get_def)

section \<open>The constructor\<close>

text \<open>
  C7 at \<open>new Iterable(undefined)\<close> and \<open>new Iterable(null)\<close>: the first statement of the
  constructor reads \<open>it.constructor\<close>, which raises a \<open>TypeError\<close> before either check
  runs, so it is not the bad-argument error that leaves the constructor.
\<close>

theorem constructor_undefined:
  "Iterable_constructor Undefined h = (Inl TypeError, h) \<and>
   Iterable_constructor Null h = (Inl TypeError, h)"
  by (simp add: Iterable_constructor_def)

text \<open>
  For every other argument the constructor does what C7 says: it succeeds exactly for a
  generator function, which it marks, and for a value that passes the capability check,
  and it fails with the bad-argument error for argument 1 of \<open>Iterable.<constructor>\<close>
  otherwise.
\<close>

lemma constructor_on_objects:
  "x \<noteq> Undefined \<Longrightarrow> x \<noteq> Null \<Longrightarrow>
     Iterable_constructor x h =
       (if constructor_name x = Some ''GeneratorFunction''
        then (Inr (IterableObj x), set_ITERATOR x h)
        else if isIterable h x then (Inr (IterableObj x), h)
        else (Inl (BadArgumentError 1 ''Iterable.<constructor>'' ''Iterable or Generator''), h))"
  by (cases x) (auto simp: Iterable_constructor_def)

text \<open>
  What the constructor and \<open>defaultIfEmpty\<close> build can be traversed: from a generator
  function, or from a source that can be traversed, they make an \<open>Iterable\<close> that can.
\<close>

lemma constructor_runnable:
  "Iterable_constructor x h = (Inr t, h') \<Longrightarrow>
     runnable h x \<or> (\<exists>f ys. x = GenFn f ys) \<or> (\<exists>f w v. x = DefaultIfEmptyFn f w v \<and> runnable h w) \<Longrightarrow>
     runnable h' t"
proof -
  assume c: "Iterable_constructor x h = (Inr t, h')"
    and w: "runnable h x \<or> (\<exists>f ys. x = GenFn f ys) \<or>
      (\<exists>f w v. x = DefaultIfEmptyFn f w v \<and> runnable h w)"
  from constructor_wraps[OF c] have t: "t = IterableObj x" .
  from w consider (a) "runnable h x" | (b) f ys where "x = GenFn f ys"
    | (c) f w v where "x = DefaultIfEmptyFn f w v" "runnable h w" by blast
  then show ?thesis
  proof cases
    case a
    with c constructor_isIterable[OF runnable_isIterable[OF a]] t show ?thesis by simp
  next
    case b
    with c t show ?thesis by (auto simp: Iterable_constructor_def)
  next
    case c
    from c(2) have "runnable (h\<lparr>marks := (marks h)(f := True)\<rparr>) w"
      by (rule runnable_mono) simp
    with c \<open>Iterable_constructor x h = (Inr t, h')\<close> t show ?thesis
      by (auto simp: Iterable_constructor_def)
  qed
qed

lemma defaultIfEmpty_runnable:
  "runnable h s \<Longrightarrow> defaultIfEmpty U s v h = (Inr t, h') \<Longrightarrow> runnable h' t"
proof -
  assume r: "runnable h s" and d: "defaultIfEmpty U s v h = (Inr t, h')"
  from r have "runnable (h\<lparr>fresh := Suc (fresh h)\<rparr>) s" by (rule runnable_mono) simp
  with d r show ?thesis
    by (auto simp: defaultIfEmpty_def IterableCheck_def runnable_isIterable Let_def
        intro!: constructor_runnable[of "DefaultIfEmptyFn (fresh h) s v"
                  "h\<lparr>fresh := Suc (fresh h)\<rparr>" t h'])
qed

section \<open>The operators modelled from the spec\<close>

subsection \<open>\<open>cache\<close>\<close>

lemma cache_traverse_run:
  "i \<le> length (buffer st) \<Longrightarrow> (terminal st \<longrightarrow> upstream st = []) \<Longrightarrow>
     cache_traverse i st =
       (drop i (buffer st) @ upstream st,
        st\<lparr>buffer := buffer st @ upstream st, upstream := [], terminal := True,
           pulls := pulls st + length (upstream st),
           probes := probes st + (if terminal st then 0 else Suc (length (upstream st)))\<rparr>)"
proof (induction i st rule: cache_traverse.induct)
  case (1 i st)
  show ?case
  proof (cases "i < length (buffer st)")
    case True
    then have c: "cache_at i st = (Some (buffer st ! i), st)" by (simp add: cache_at_def)
    from 1(1)[OF c[symmetric] refl] True 1(3)
    have "cache_traverse (Suc i) st =
       (drop (Suc i) (buffer st) @ upstream st,
        st\<lparr>buffer := buffer st @ upstream st, upstream := [], terminal := True,
           pulls := pulls st + length (upstream st),
           probes := probes st + (if terminal st then 0 else Suc (length (upstream st)))\<rparr>)"
      by simp
    with c True show ?thesis
      by (subst cache_traverse.simps) (simp add: Cons_nth_drop_Suc)
  next
    case False
    with 1(2) have i: "i = length (buffer st)" by simp
    show ?thesis
    proof (cases "terminal st")
      case True
      with False 1(3) show ?thesis
        by (subst cache_traverse.simps) (simp add: cache_at_def i)
    next
      case nt: False
      show ?thesis
      proof (cases "upstream st")
        case Nil
        with nt False show ?thesis
          by (subst cache_traverse.simps) (simp add: cache_at_def i)
      next
        case (Cons x rest)
        define st' where "st' = st\<lparr>buffer := buffer st @ [x], upstream := rest,
                         pulls := Suc (pulls st), probes := Suc (probes st)\<rparr>"
        from Cons nt False have c: "cache_at i st = (Some x, st')"
          by (simp add: cache_at_def st'_def)
        from 1(1)[OF c[symmetric] refl] i nt
        have "cache_traverse (Suc i) st' =
          (drop (Suc i) (buffer st') @ upstream st',
           st'\<lparr>buffer := buffer st' @ upstream st', upstream := [], terminal := True,
           pulls := pulls st' + length (upstream st'),
           probes := probes st' + (if terminal st' then 0 else Suc (length (upstream st')))\<rparr>)"
          by (simp add: st'_def)
        with c Cons nt i show ?thesis
          by (subst cache_traverse.simps) (simp add: st'_def)
      qed
    qed
  qed
qed


lemma settled_unchanged:
  "terminal st \<Longrightarrow> upstream st = [] \<Longrightarrow> st\<lparr>upstream := [], terminal := True\<rparr> = st"
  by (cases st) simp

lemma cache_repeat_settled:
  "terminal st \<Longrightarrow> upstream st = [] \<Longrightarrow> cache_repeat m st = (replicate m (buffer st), st)"
  by (induction m) (simp_all add: cache_traverse_run settled_unchanged)

text \<open>
  C1. For a finite source \<open>S\<close> of length \<open>n\<close>, \<open>m\<close> traversals of \<open>cache(S)\<close>, one after
  the other and at least one, each yield exactly \<open>S\<close>, and in total \<open>n\<close> elements are
  pulled from the upstream, not \<open>n * m\<close>: one for every ordinal of the buffer, which in
  the end holds \<open>S\<close>. The upstream is asked once more, and answers with completion; after
  that no traversal touches it.
\<close>

theorem cache_replays:
  "0 < m \<Longrightarrow>
     (case cache_repeat m (cache_init S) of
        (outs, st) \<Rightarrow>
          outs = replicate m S \<and> pulls st = length S \<and> probes st = Suc (length S) \<and>
          buffer st = S \<and> pulls st = length (buffer st))"
proof -
  assume "0 < m"
  then obtain k where m: "m = Suc k" by (cases m) auto
  define st1 where "st1 = (cache_init S)\<lparr>buffer := S, upstream := [], terminal := True,
           pulls := length S, probes := Suc (length S)\<rparr>"
  have t: "cache_traverse 0 (cache_init S) = (S, st1)"
    using cache_traverse_run[of 0 "cache_init S"] by (simp add: cache_init_def st1_def)
  have "cache_repeat k st1 = (replicate k (buffer st1), st1)"
    by (rule cache_repeat_settled) (simp_all add: st1_def)
  with t m show ?thesis by (simp add: st1_def)
qed

theorem cache_replays_witness:
  "(0::nat) < 3 \<and>
   fst (cache_repeat 3 (cache_init [Num 1, Num 2])) =
     [[Num 1, Num 2], [Num 1, Num 2], [Num 1, Num 2]] \<and>
   pulls (snd (cache_repeat 3 (cache_init [Num 1, Num 2]))) = 2"
  using cache_replays[of 3 "[Num 1, Num 2]"]
  by (simp add: case_prod_beta numeral_3_eq_3)

subsection \<open>\<open>split\<close>\<close>

lemma drive_A:
  "drive cutoff BranchA up p other =
     (if up \<noteq> [] \<and> int p < cutoff then (Some (hd up), tl up, Suc p, other)
      else (None, [], p + length up, other @ up))"
proof (induction up arbitrary: p other)
  case Nil
  then show ?case by simp
next
  case (Cons x up)
  show ?case
  proof (cases "int p < cutoff")
    case True
    then show ?thesis by (simp add: side_def)
  next
    case False
    then have "\<not> int (Suc p) < cutoff" by simp
    with Cons[of "Suc p" "other @ [x]"] False show ?thesis
      by (cases up) (simp_all add: side_def)
  qed
qed

lemma drive_B:
  "drive cutoff BranchB up p other =
     (let n = nat (cutoff - int p) in
      if n < length up then (Some (up ! n), drop (Suc n) up, Suc (p + n), other @ take n up)
      else (None, [], p + length up, other @ up))"
proof (induction up arbitrary: p other)
  case Nil
  then show ?case by (simp add: Let_def)
next
  case (Cons x up)
  show ?case
  proof (cases "int p < cutoff")
    case False
    then show ?thesis by (simp add: side_def Let_def)
  next
    case True
    then have m: "nat (cutoff - int p) = Suc (nat (cutoff - int (Suc p)))" by arith
    with Cons[of "Suc p" "other @ [x]"] True show ?thesis
      by (simp add: side_def Let_def)
  qed
qed


declare drive.simps [simp del]

lemma branch_next_A:
  "branch_next cutoff BranchA st = (r, st1) \<Longrightarrow>
     (case r of
        Some x \<Rightarrow> due cutoff BranchA st = x # due cutoff BranchA st1 \<and>
                  due cutoff BranchB st1 = due cutoff BranchB st \<and>
                  produced st1 + length (shared st1) = produced st + length (shared st)
      | None \<Rightarrow> due cutoff BranchA st = [] \<and> st1 = drained cutoff BranchA st)"
proof (cases "bufferA st")
  case (Cons x rest)
  assume "branch_next cutoff BranchA st = (r, st1)"
  with Cons show ?thesis by (auto simp: due_def)
next
  case Nil
  assume n: "branch_next cutoff BranchA st = (r, st1)"
  show ?thesis
  proof (cases "shared st \<noteq> [] \<and> int (produced st) < cutoff")
    case True
    then obtain x up where up: "shared st = x # up" by (cases "shared st") auto
    from True have m: "nat (cutoff - int (produced st)) = Suc (nat (cutoff - int (Suc (produced st))))"
      by arith
    from n Nil True up have "r = Some x"
      "st1 = st\<lparr>shared := up, produced := Suc (produced st), bufferB := bufferB st\<rparr>"
      by (auto simp: drive_A)
    with Nil up m show ?thesis by (simp add: due_def)
  next
    case False
    with n Nil have r: "r = None"
      and s: "st1 = st\<lparr>shared := [], produced := produced st + length (shared st),
                      bufferB := bufferB st @ shared st\<rparr>"
      by (auto simp: drive_A)
    from False have "take (nat (cutoff - int (produced st))) (shared st) = []"
      "drop (nat (cutoff - int (produced st))) (shared st) = shared st"
      by auto
    with r s Nil show ?thesis by (simp add: due_def drained_def)
  qed
qed

lemma branch_next_B:
  "branch_next cutoff BranchB st = (r, st1) \<Longrightarrow>
     (case r of
        Some x \<Rightarrow> due cutoff BranchB st = x # due cutoff BranchB st1 \<and>
                  due cutoff BranchA st1 = due cutoff BranchA st \<and>
                  produced st1 + length (shared st1) = produced st + length (shared st)
      | None \<Rightarrow> due cutoff BranchB st = [] \<and> st1 = drained cutoff BranchB st)"
proof (cases "bufferB st")
  case (Cons x rest)
  assume "branch_next cutoff BranchB st = (r, st1)"
  with Cons show ?thesis by (auto simp: due_def)
next
  case Nil
  assume n: "branch_next cutoff BranchB st = (r, st1)"
  define k where "k = nat (cutoff - int (produced st))"
  show ?thesis
  proof (cases "k < length (shared st)")
    case True
    with n Nil have r: "r = Some (shared st ! k)"
      and s: "st1 = st\<lparr>shared := drop (Suc k) (shared st), produced := Suc (produced st + k),
                      bufferA := bufferA st @ take k (shared st)\<rparr>"
      by (auto simp: drive_B Let_def k_def)
    have z: "nat (cutoff - int (Suc (produced st + k))) = 0"
      unfolding k_def by arith
    from True r s Nil z show ?thesis
      by (simp add: due_def k_def[symmetric] Cons_nth_drop_Suc)
  next
    case False
    with n Nil have r: "r = None"
      and s: "st1 = st\<lparr>shared := [], produced := produced st + length (shared st),
                      bufferA := bufferA st @ shared st\<rparr>"
      by (auto simp: drive_B Let_def k_def)
    from False r s Nil show ?thesis
      by (simp add: due_def drained_def k_def[symmetric])
  qed
qed

lemma branch_traverse_run:
  "branch_traverse cutoff b st = (due cutoff b st, drained cutoff b st)"
proof (induction cutoff b st rule: branch_traverse.induct)
  case (1 cutoff b st)
  obtain r st1 where n: "branch_next cutoff b st = (r, st1)" by (metis prod.exhaust)
  show ?case
  proof (cases r)
    case None
    with n branch_next_A[of cutoff st r st1] branch_next_B[of cutoff st r st1] show ?thesis
      by (subst branch_traverse.simps) (cases b; simp)
  next
    case (Some x)
    from 1[OF n[symmetric] Some]
    have ih: "branch_traverse cutoff b st1 = (due cutoff b st1, drained cutoff b st1)" .
    have d: "due cutoff b st = x # due cutoff b st1 \<and> drained cutoff b st1 = drained cutoff b st"
    proof (cases b)
      case BranchA
      with n Some branch_next_A[of cutoff st r st1] show ?thesis
        by (auto simp: drained_def)
    next
      case BranchB
      with n Some branch_next_B[of cutoff st r st1] show ?thesis
        by (auto simp: drained_def)
    qed
    with n Some ih show ?thesis by (subst branch_traverse.simps) simp
  qed
qed

text \<open>
  C2. For every upstream \<open>S\<close> and every cutoff \<open>k\<close>, whichever branch is traversed first,
  branch A yields the first \<open>k\<close> elements of \<open>S\<close> (all of \<open>S\<close> when it has fewer, none when
  \<open>k \<le> 0\<close>), branch B yields the remainder, and A followed by B is \<open>S\<close> in its order. So
  a cutoff \<open>k \<le> 0\<close> gives an empty branch A, a cutoff of at least the length of \<open>S\<close> an
  empty branch B, and an empty upstream two empty branches.
\<close>

theorem split_concat:
  "(let (a, st1) = branch_traverse k BranchA (split_init S);
        (b, st2) = branch_traverse k BranchB st1
    in a = take (nat k) S \<and> b = drop (nat k) S \<and> a @ b = S \<and>
       (k \<le> 0 \<longrightarrow> a = []) \<and> (int (length S) \<le> k \<longrightarrow> b = []) \<and>
       (S = [] \<longrightarrow> a = [] \<and> b = [])) \<and>
   (let (b, st1) = branch_traverse k BranchB (split_init S);
        (a, st2) = branch_traverse k BranchA st1
    in a = take (nat k) S \<and> b = drop (nat k) S \<and> a @ b = S \<and>
       (k \<le> 0 \<longrightarrow> a = []) \<and> (int (length S) \<le> k \<longrightarrow> b = []) \<and>
       (S = [] \<longrightarrow> a = [] \<and> b = []))"
  by (auto simp: branch_traverse_run due_def drained_def split_init_def)

theorem split_concat_witness:
  "fst (branch_traverse 0 BranchA (split_init [Num 1, Num 2, Num 3])) = [] \<and>
   fst (branch_traverse 0 BranchB
         (snd (branch_traverse 0 BranchA (split_init [Num 1, Num 2, Num 3])))) =
     [Num 1, Num 2, Num 3] \<and>
   fst (branch_traverse 1 BranchB (split_init [Num 1, Num 2, Num 3])) = [Num 2, Num 3] \<and>
   fst (branch_traverse 1 BranchA
         (snd (branch_traverse 1 BranchB (split_init [Num 1, Num 2, Num 3])))) = [Num 1] \<and>
   fst (branch_traverse 8 BranchA (split_init [Num 1, Num 2, Num 3])) =
     [Num 1, Num 2, Num 3] \<and>
   fst (branch_traverse 8 BranchB
         (snd (branch_traverse 8 BranchA (split_init [Num 1, Num 2, Num 3])))) = []"
  using split_concat[of 0 "[Num 1, Num 2, Num 3]"]
        split_concat[of 1 "[Num 1, Num 2, Num 3]"]
        split_concat[of 8 "[Num 1, Num 2, Num 3]"]
  by (simp add: case_prod_beta Let_def)

subsection \<open>\<open>zip\<close>\<close>

lemma zip_round_None: "zip_round seqs = None \<longleftrightarrow> [] \<in> set seqs"
  by (induction seqs) (auto split: list.splits option.splits)

lemma zip_round_Some:
  "zip_round seqs = Some (tuple, rest) \<Longrightarrow>
     [] \<notin> set seqs \<and> tuple = map hd seqs \<and> rest = map tl seqs"
  by (induction seqs arbitrary: tuple rest) (auto split: list.splits option.splits)

lemma shortest_0: "seqs \<noteq> [] \<Longrightarrow> shortest seqs = 0 \<longleftrightarrow> [] \<in> set seqs"
proof
  assume ne: "seqs \<noteq> []" and z: "shortest seqs = 0"
  have "Min (set (map length seqs)) \<in> set (map length seqs)"
    using ne by (intro Min_in) auto
  with z obtain xs where "xs \<in> set seqs" "length xs = 0"
    unfolding shortest_def by auto
  then show "[] \<in> set seqs" by simp
next
  assume "[] \<in> set seqs"
  then have "Min (set (map length seqs)) \<le> length ([] :: val list)"
    by (intro Min_le) auto
  then show "shortest seqs = 0" by (simp add: shortest_def)
qed

lemma shortest_tl:
  "seqs \<noteq> [] \<Longrightarrow> [] \<notin> set seqs \<Longrightarrow> shortest seqs = Suc (shortest (map tl seqs))"
proof -
  assume ne: "seqs \<noteq> []" and nn: "[] \<notin> set seqs"
  have "set (map length seqs) = Suc ` set (map length (map tl seqs))"
  proof -
    have "\<And>xs. xs \<in> set seqs \<Longrightarrow> length xs = Suc (length (tl xs))"
      using nn by (metis length_Suc_conv list.sel(3) list.exhaust)
    then show ?thesis by (auto simp: image_iff)
  qed
  moreover have "Min (Suc ` set (map length (map tl seqs))) = Suc (Min (set (map length (map tl seqs))))"
    using ne by (intro mono_Min_commute[symmetric]) (auto simp: mono_def)
  ultimately show ?thesis by (simp add: shortest_def)
qed

lemma row_0: "[] \<notin> set seqs \<Longrightarrow> row seqs 0 = map hd seqs"
  by (induction seqs) (auto simp: row_def hd_conv_nth)

lemma nth_tl_nonempty: "xs \<noteq> [] \<Longrightarrow> tl xs ! i = xs ! Suc i"
  by (cases xs) simp_all

lemma row_Suc: "[] \<notin> set seqs \<Longrightarrow> row seqs (Suc i) = row (map tl seqs) i"
  by (induction seqs) (auto simp: row_def nth_tl_nonempty)

lemma zip_run_rows:
  "seqs \<noteq> [] \<Longrightarrow> shortest seqs = n \<Longrightarrow>
     zip_run c seqs = Some (map (\<lambda>i. combine c (row seqs i)) [0..<n])"
proof (induction n arbitrary: seqs)
  case 0
  then have "zip_round seqs = None" by (simp add: zip_round_None shortest_0)
  then show ?case by (subst zip_run.simps) simp
next
  case (Suc n)
  from Suc(2,3) have nn: "[] \<notin> set seqs" using shortest_0 by fastforce
  then obtain tuple rest where r: "zip_round seqs = Some (tuple, rest)"
    using zip_round_None by (cases "zip_round seqs") auto
  from zip_round_Some[OF r] have v: "tuple = map hd seqs" and t: "rest = map tl seqs" by auto
  from shortest_tl[OF Suc(2) nn] Suc(3) have s: "shortest rest = n" by (simp add: t)
  from Suc(2) t have "rest \<noteq> []" by simp
  from Suc(1)[OF this s]
  have ih: "zip_run c rest = Some (map (\<lambda>i. combine c (row rest i)) [0..<n])" .
  have "map (\<lambda>i. combine c (row seqs i)) [0..<Suc n] =
      combine c tuple # map (\<lambda>i. combine c (row rest i)) [0..<n]"
    using nn by (simp add: upt_rec[of 0 "Suc n"] map_Suc_upt[symmetric] row_0 row_Suc v t del: upt_Suc)
  with r ih show ?case by (subst zip_run.simps) simp
qed

text \<open>With no input the run does not return.\<close>

lemma zip_run_needs_input:
  assumes "zip_run c seqs = Some out"
  shows "seqs \<noteq> []"
proof (rule zip_run.raw_induct[where P = "\<lambda>c seqs out. seqs \<noteq> []", OF _ assms])
  fix zr :: "(val list \<Rightarrow> val) option \<Rightarrow> val list list \<Rightarrow> val list option"
  fix c seqs out
  assume ih: "\<And>c seqs y. zr c seqs = Some y \<Longrightarrow> seqs \<noteq> []"
    and eq: "(case zip_round seqs of None \<Rightarrow> Some []
      | Some (tuple, rest) \<Rightarrow>
          Option.bind (zr c rest) (\<lambda>out. Some (combine c tuple # out))) = Some out"
  show "seqs \<noteq> []"
  proof
    assume "seqs = []"
    with eq obtain o' where "zr c [] = Some o'"
      by (auto simp: Option.bind_eq_Some_conv)
    with ih show False by blast
  qed
qed

lemma zip_run_no_input: "zip_run c [] = None"
  using zip_run_needs_input[of c "[]"] by (cases "zip_run c []") auto

text \<open>
  C3. For inputs \<open>A1 .. An\<close>, at least one, \<open>zip\<close> yields exactly as many elements as the
  shortest input has, and its \<open>i\<close>-th output is the combiner applied to the tuple of the
  \<open>i\<close>-th elements of the inputs, in their order, or that tuple itself when no combiner is
  supplied.
\<close>

theorem zip_rows:
  "seqs \<noteq> [] \<Longrightarrow>
     zip_run c seqs = Some (map (\<lambda>i. combine c (row seqs i)) [0..<shortest seqs]) \<and>
     length (map (\<lambda>i. combine c (row seqs i)) [0..<shortest seqs]) =
       Min (set (map length seqs)) \<and>
     combine None (row seqs i) = Arr (row seqs i) \<and>
     combine (Some f) (row seqs i) = f (row seqs i)"
  by (simp add: zip_run_rows combine_def) (simp add: shortest_def)

theorem zip_rows_witness:
  "[[Num 1, Num 2, Num 3], [Num 10, Num 20]] \<noteq> [] \<and>
   zip_run (Some sum_combiner) [[Num 1, Num 2, Num 3], [Num 10, Num 20]] =
     Some [Num 11, Num 22] \<and>
   zip_run None [[Num 1, Num 2, Num 3], [Num 10, Num 20]] =
     Some [Arr [Num 1, Num 10], Arr [Num 2, Num 20]]"
proof -
  have s: "shortest [[Num 1, Num 2, Num 3], [Num 10, Num 20]] = 2"
    by (simp add: shortest_def)
  have u: "[0..<2] = [0, Suc 0]" by (simp add: upt_rec numeral_2_eq_2)
  from zip_rows[of "[[Num 1, Num 2, Num 3], [Num 10, Num 20]]" "Some sum_combiner"]
       zip_rows[of "[[Num 1, Num 2, Num 3], [Num 10, Num 20]]" None]
  show ?thesis
    by (simp add: s u row_def combine_def sum_combiner_def)
qed

subsection \<open>\<open>equal\<close>\<close>

lemma equal_from_run:
  "equal_from i a b = (v, k) \<Longrightarrow>
     i \<le> k \<and> k - i \<le> length a \<and> k - i \<le> length b \<and>
     take (k - i) a = take (k - i) b \<and>
     (v \<longleftrightarrow> a = b) \<and>
     (v \<longrightarrow> k - i = length a) \<and>
     (\<not> v \<longrightarrow> (k - i < length a \<and> k - i < length b \<and> a ! (k - i) \<noteq> b ! (k - i)) \<or>
              (k - i = length a \<and> k - i < length b) \<or>
              (k - i < length a \<and> k - i = length b))"
proof (induction i a b arbitrary: v k rule: equal_from.induct)
  case (4 i x xs y ys)
  show ?case
  proof (cases "x = y")
    case True
    with 4(2) have e: "equal_from (Suc i) xs ys = (v, k)" by simp
    from 4(1)[OF _ e] True have ih:
      "Suc i \<le> k" "k - Suc i \<le> length xs" "k - Suc i \<le> length ys"
      "take (k - Suc i) xs = take (k - Suc i) ys" "v \<longleftrightarrow> xs = ys"
      "v \<longrightarrow> k - Suc i = length xs"
      "\<not> v \<longrightarrow> (k - Suc i < length xs \<and> k - Suc i < length ys \<and> xs ! (k - Suc i) \<noteq> ys ! (k - Suc i)) \<or>
              (k - Suc i = length xs \<and> k - Suc i < length ys) \<or>
              (k - Suc i < length xs \<and> k - Suc i = length ys)"
      by auto
    from ih(1) have d: "k - i = Suc (k - Suc i)" by simp
    from ih True show ?thesis unfolding d by auto
  next
    case False
    with 4(2) show ?thesis by auto
  qed
qed auto

text \<open>
  C4. \<open>equal(a, b)\<close> yields true exactly when \<open>a\<close> and \<open>b\<close> have the same length and the
  same value at every index, that is, when they exhaust together with no mismatch. The
  verdict is reached at an index up to which the two agree: for true, the common
  length; for false, the first index where the values differ or where one is exhausted
  while the other is not.
\<close>

theorem equal_verdict:
  "(equal_yield a b \<longleftrightarrow> length a = length b \<and> (\<forall>i<length a. a ! i = b ! i)) \<and>
   (let k = equal_index a b in
      take k a = take k b \<and>
      (equal_yield a b \<longrightarrow> k = length a \<and> k = length b) \<and>
      (\<not> equal_yield a b \<longrightarrow>
         (k < length a \<and> k < length b \<and> a ! k \<noteq> b ! k) \<or>
         (k = length a \<and> k < length b) \<or>
         (k < length a \<and> k = length b)))"
proof -
  obtain v k where e: "equal_from 0 a b = (v, k)" by (metis prod.exhaust)
  from equal_from_run[OF e] e show ?thesis
    by (auto simp: equal_yield_def equal_index_def Let_def list_eq_iff_nth_eq)
qed

theorem equal_verdict_witness:
  "equal_yield [Num 1, Num 2, Num 3] [Num 1, Num 2, Num 3] \<and>
   equal_yield ([] :: val list) [] \<and>
   \<not> equal_yield [Num 1, Num 2, Num 3] [Num 1, Num 2] \<and>
   equal_index [Num 1, Num 2, Num 3] [Num 1, Num 2] = 2"
proof -
  have i: "equal_index [Num 1, Num 2, Num 3] [Num 1, Num 2] = 2"
    by (simp add: equal_index_def)
  from equal_verdict[of "[Num 1, Num 2, Num 3]" "[Num 1, Num 2, Num 3]"]
  have 1: "equal_yield [Num 1, Num 2, Num 3] [Num 1, Num 2, Num 3]" by simp
  from equal_verdict[of "[] :: val list" "[]"]
  have 2: "equal_yield ([] :: val list) []" by simp
  from equal_verdict[of "[Num 1, Num 2, Num 3]" "[Num 1, Num 2]"]
  have 3: "\<not> equal_yield [Num 1, Num 2, Num 3] [Num 1, Num 2]" by simp
  from 1 2 3 i show ?thesis by simp
qed

end
